theory Spec2Isabelle
  imports Main "HOL-Library.Word" "HOL-Library.Sublist"
begin

unbundle bit_operations_syntax

section \<open>Signature hashes of lib/transaction/sighash.js\<close>

text \<open>
  The module computes the digest an input's signature commits to: the legacy scheme
  (copy the transaction, override fields, serialize, double hash) for versions below 4
  and the Sapling-era scheme (personalized hashes over sub-lists) from version 4 on,
  with \<open>sign\<close> and \<open>verify\<close> on top.

  The module calls into files that are not part of it: the hash functions, the curve
  primitive, the serialization of transactions and outputs, and the removal of
  codeseparators from a script. They are the fields of the record \<open>prims\<close> below and
  every definition takes them as its first argument, so that each theorem holds for
  every choice of them.
\<close>

subsection \<open>Data model\<close>

text \<open>
  The fields the module reads, with the types of section 3 of the specification. The
  32-bit and 64-bit unsigned fields are words. The version is a number that the source
  compares with 4 and combines with \<open>1 << 31\<close>. The value balance is a signed number,
  which the source hands to \<open>new BN\<close>. An absent value (\<open>undefined\<close>) is \<open>None\<close>.
  An input number is a natural number.

  A signature type is a 32-bit word: the source masks it with 31 and with 0x80, takes
  it \<open>>>> 0\<close> and writes it with \<open>writeInt32LE\<close>, so what counts is its 32 bits.
\<close>

type_synonym byte = "8 word"
type_synonym bytes = "byte list"
type_synonym u32 = "32 word"
type_synonym u64 = "64 word"

text \<open>A script is the byte sequence its \<open>toBuffer()\<close> returns; \<open>Script.empty()\<close>
  is \<open>[]\<close>.\<close>

type_synonym script = bytes

datatype error = InvalidArgument | TypeError | AssertionFailed

datatype endian = Little | Big

record Output =
  satoshis :: u64
  lockingScript :: script

record Input =
  prevTxId :: bytes
  outputIndex :: u32
  sequenceNumber :: u32
  script :: script
  output_spent :: "Output option"

record Transaction =
  version :: int
  nVersionGroupId :: u32
  inputs :: "Input list"
  outputs :: "Output list"
  nLockTime :: u32
  nExpiryHeight :: u32
  valueBalance :: int
  branchId :: "u32 option"

record 'sv Signature =
  sigvalue :: 'sv
  nhashtype :: "u32 option"

text \<open>
  The collaborators of the module. \<open>blake2b\<close> takes the personalization and the data
  (output length 32, no key, no salt); \<open>tx_toBuffer\<close> is \<open>Transaction.toBuffer\<close>,
  \<open>output_toBuffer\<close> the bytes \<open>Output.toBufferWriter\<close> appends.
\<close>

record ('priv, 'pub, 'sv) prims =
  blake2b :: "bytes \<Rightarrow> bytes \<Rightarrow> bytes"
  sha256sha256 :: "bytes \<Rightarrow> bytes"
  tx_toBuffer :: "Transaction \<Rightarrow> bytes"
  output_toBuffer :: "Output \<Rightarrow> bytes"
  removeCodeseparators :: "script \<Rightarrow> script"
  ecdsa_sign :: "bytes \<Rightarrow> 'priv \<Rightarrow> endian \<Rightarrow> 'sv Signature"
  ecdsa_verify :: "bytes \<Rightarrow> 'sv Signature \<Rightarrow> 'pub \<Rightarrow> endian \<Rightarrow> bool"

subsection \<open>Constants\<close>

text \<open>Modelled from the spec: the flag values of \<open>Signature\<close> (section 6), which
  crypto/signature.js defines.\<close>

definition SIGHASH_ALL :: u32 where "SIGHASH_ALL = 1"
definition SIGHASH_NONE :: u32 where "SIGHASH_NONE = 2"
definition SIGHASH_SINGLE :: u32 where "SIGHASH_SINGLE = 3"
definition SIGHASH_ANYONECANPAY :: u32 where "SIGHASH_ANYONECANPAY = 0x80"

definition SIGHASH_SINGLE_BUG :: bytes where
  "SIGHASH_SINGLE_BUG =
     [0, 0, 0, 0, 0, 0, 0, 0, 0, 0, 0, 0, 0, 0, 0, 0,
      0, 0, 0, 0, 0, 0, 0, 0, 0, 0, 0, 0, 0, 0, 0, 1]"

definition BITS_64_ON :: u64 where "BITS_64_ON = 0xffffffffffffffff"

definition ZERO :: bytes where "ZERO = replicate 32 0"

definition DEFAULT_BRANCH_ID :: u32 where "DEFAULT_BRANCH_ID = 0x76b809bb"

subsection \<open>Byte encodings and the buffer writer\<close>

text \<open>Modelled from the spec: the little-endian encodings of encoding/bufferwriter.js
  and the compact variable-length integer.\<close>

definition le16 :: "nat \<Rightarrow> bytes" where
  "le16 n = [of_nat n, of_nat (n div 256)]"

definition le32 :: "u32 \<Rightarrow> bytes" where
  "le32 w = [ucast w, ucast (drop_bit 8 w), ucast (drop_bit 16 w), ucast (drop_bit 24 w)]"

definition le64 :: "u64 \<Rightarrow> bytes" where
  "le64 w = [ucast w, ucast (drop_bit 8 w), ucast (drop_bit 16 w), ucast (drop_bit 24 w),
     ucast (drop_bit 32 w), ucast (drop_bit 40 w), ucast (drop_bit 48 w), ucast (drop_bit 56 w)]"

definition varint :: "nat \<Rightarrow> bytes" where
  "varint n =
     (if n < 253 then [of_nat n]
      else if n < 0x10000 then 253 # le16 n
      else if n < 0x100000000 then 254 # le32 (of_nat n)
      else 255 # le64 (of_nat n))"

definition ascii :: "string \<Rightarrow> bytes" where
  "ascii s = map (\<lambda>c. of_nat (of_char c)) s"

text \<open>Modelled from the spec: the writer of encoding/bufferwriter.js and the reader
  of encoding/bufferreader.js. A \<open>BufferWriter\<close> is the list of the buffers written
  so far, \<open>toBuffer\<close> concatenates them, and \<open>readReverse\<close> of a reader over a
  whole buffer gives its bytes in reverse.\<close>

type_synonym BufferWriter = "bytes list"

definition writeBuf :: "BufferWriter \<Rightarrow> bytes \<Rightarrow> BufferWriter" where
  "writeBuf w buf = w @ [buf]"

definition writeReverse :: "BufferWriter \<Rightarrow> bytes \<Rightarrow> BufferWriter" where
  "writeReverse w buf = writeBuf w (rev buf)"

definition writeUInt32LE :: "BufferWriter \<Rightarrow> u32 \<Rightarrow> BufferWriter" where
  "writeUInt32LE w n = writeBuf w (le32 n)"

definition writeInt32LE :: "BufferWriter \<Rightarrow> u32 \<Rightarrow> BufferWriter" where
  "writeInt32LE w n = writeBuf w (le32 n)"

definition writeUInt64LEBN :: "BufferWriter \<Rightarrow> int \<Rightarrow> BufferWriter" where
  "writeUInt64LEBN w bn =
     writeBuf w (if bn < 0 then replicate 8 0 else le64 (word_of_int bn))"

definition writeVarintNum :: "BufferWriter \<Rightarrow> nat \<Rightarrow> BufferWriter" where
  "writeVarintNum w n = writeBuf w (varint n)"

text \<open>Modelled from the spec: the eight-byte unsigned encoding of the value balance and
  of the spent value goes through \<open>new BN(number)\<close> of crypto/bn.js. It takes a number
  below \<open>2 ^ 53\<close> in magnitude and fails an assertion otherwise. \<open>writeUInt64LEBN\<close>
  above writes the little-endian bytes of a value that is not negative; for a negative
  one it writes eight zero bytes, since the hexadecimal form it goes through starts with
  a minus sign.\<close>

definition new_BN :: "int \<Rightarrow> error + int" where
  "new_BN number = (if \<bar>number\<bar> < 2 ^ 53 then Inr number else Inl AssertionFailed)"

definition toBuffer :: "BufferWriter \<Rightarrow> bytes" where
  "toBuffer w = concat w"

definition readReverse :: "bytes \<Rightarrow> bytes" where
  "readReverse buf = rev buf"

subsection \<open>The Sapling-era builder (sighashSapling, lines 24-172)\<close>

definition getBlake2bHash :: "('priv, 'pub, 'sv) prims \<Rightarrow> bytes \<Rightarrow> bytes \<Rightarrow> bytes" where
  "getBlake2bHash P bufferToHash personalization = blake2b P personalization bufferToHash"

definition GetPrevoutHash :: "('priv, 'pub, 'sv) prims \<Rightarrow> Transaction \<Rightarrow> bytes" where
  "GetPrevoutHash P tx =
     (let writer = fold (\<lambda>input writer.
                      writeUInt32LE (writeReverse writer (prevTxId input)) (outputIndex input))
                    (inputs tx) []
      in getBlake2bHash P (toBuffer writer) (ascii ''ZcashPrevoutHash''))"

definition GetSequenceHash :: "('priv, 'pub, 'sv) prims \<Rightarrow> Transaction \<Rightarrow> bytes" where
  "GetSequenceHash P tx =
     (let writer = fold (\<lambda>input writer. writeUInt32LE writer (sequenceNumber input))
                    (inputs tx) []
      in getBlake2bHash P (toBuffer writer) (ascii ''ZcashSequencHash''))"

text \<open>\<open>n\<close> is \<open>None\<close> when the caller passes no second argument. \<open>tx.outputs[n]\<close>
  out of range is \<open>undefined\<close>, and the method call on it throws.\<close>

definition GetOutputsHash ::
  "('priv, 'pub, 'sv) prims \<Rightarrow> Transaction \<Rightarrow> nat option \<Rightarrow> error + bytes" where
  "GetOutputsHash P tx n =
     (case n of
        None \<Rightarrow>
          (let writer = fold (\<lambda>out writer. writeBuf writer (output_toBuffer P out))
                         (outputs tx) []
           in Inr (getBlake2bHash P (toBuffer writer) (ascii ''ZcashOutputsHash'')))
      | Some k \<Rightarrow>
          (if k < length (outputs tx)
           then (let writer = writeBuf [] (output_toBuffer P (outputs tx ! k))
                 in Inr (getBlake2bHash P (toBuffer writer) (ascii ''ZcashOutputsHash'')))
           else Inl TypeError))"

text \<open>Lines 104-106, 110-114 and 118-122: the three sub-hashes, each \<open>ZERO\<close> unless
  its guard holds.\<close>

definition hashPrevouts :: "('priv, 'pub, 'sv) prims \<Rightarrow> Transaction \<Rightarrow> u32 \<Rightarrow> bytes" where
  "hashPrevouts P transaction sighashType =
     (if sighashType AND SIGHASH_ANYONECANPAY = 0
      then GetPrevoutHash P transaction else ZERO)"

definition hashSequence :: "('priv, 'pub, 'sv) prims \<Rightarrow> Transaction \<Rightarrow> u32 \<Rightarrow> bytes" where
  "hashSequence P transaction sighashType =
     (if sighashType AND SIGHASH_ANYONECANPAY = 0 \<and>
         sighashType AND 31 \<noteq> SIGHASH_SINGLE \<and>
         sighashType AND 31 \<noteq> SIGHASH_NONE
      then GetSequenceHash P transaction else ZERO)"

definition hashOutputs ::
  "('priv, 'pub, 'sv) prims \<Rightarrow> Transaction \<Rightarrow> u32 \<Rightarrow> nat \<Rightarrow> error + bytes" where
  "hashOutputs P transaction sighashType inputNumber =
     (if sighashType AND 31 \<noteq> SIGHASH_SINGLE \<and> sighashType AND 31 \<noteq> SIGHASH_NONE
      then GetOutputsHash P transaction None
      else if sighashType AND 31 = SIGHASH_SINGLE \<and> inputNumber < length (outputs transaction)
      then GetOutputsHash P transaction (Some inputNumber)
      else Inr ZERO)"

text \<open>Lines 161-168: sixteen zero bytes, the prefix written at offset 0 and the branch
  id at offset 12. \<open>if (transaction.branchId)\<close> is false for an absent id and for 0.\<close>

definition buffer_write_at :: "bytes \<Rightarrow> bytes \<Rightarrow> nat \<Rightarrow> bytes" where
  "buffer_write_at buf src offset =
     take offset buf @ take (length buf - offset) src @ drop (offset + length src) buf"

definition consensusBranchId :: "Transaction \<Rightarrow> u32" where
  "consensusBranchId transaction =
     (case branchId transaction of
        None \<Rightarrow> DEFAULT_BRANCH_ID
      | Some b \<Rightarrow> if b \<noteq> 0 then b else DEFAULT_BRANCH_ID)"

definition personalization :: "Transaction \<Rightarrow> bytes" where
  "personalization transaction =
     (let personalization = replicate 16 0;
          prefix = ascii ''ZcashSigHash'';
          personalization = buffer_write_at personalization prefix 0
      in buffer_write_at personalization (le32 (consensusBranchId transaction)) (length prefix))"

text \<open>
  The builder. \<open>transaction.inputs[inputNumber]\<close> is read first (line 45) and used
  from line 147 on: out of range it is \<open>undefined\<close> and reading \<open>prevTxId\<close> throws.
  \<open>input.output\<close> is absent for an input that was not given its spent output, and
  reading \<open>satoshis\<close> throws then. The value balance (line 141) and the spent value
  (line 155) go through \<open>new BN\<close>, which throws from \<open>2 ^ 53\<close> on.
\<close>

definition sighashSapling ::
  "('priv, 'pub, 'sv) prims \<Rightarrow> Transaction \<Rightarrow> u32 \<Rightarrow> nat \<Rightarrow> script \<Rightarrow> error + bytes" where
  "sighashSapling P transaction sighashType inputNumber subscript =
     (let writer = [];
          header = word_of_int (version transaction) OR push_bit 31 1;
          writer = writeInt32LE writer header;
          writer = writeUInt32LE writer (nVersionGroupId transaction);
          writer = writeBuf writer (hashPrevouts P transaction sighashType);
          writer = writeBuf writer (hashSequence P transaction sighashType)
      in case hashOutputs P transaction sighashType inputNumber of
           Inl e \<Rightarrow> Inl e
         | Inr hashOuts \<Rightarrow>
          (let writer = writeBuf writer hashOuts;
               writer = writeBuf writer ZERO;
               writer = writeBuf writer ZERO;
               writer = writeBuf writer ZERO;
               writer = writeUInt32LE writer (nLockTime transaction);
               writer = writeUInt32LE writer (nExpiryHeight transaction)
           in case new_BN (valueBalance transaction) of
                Inl e \<Rightarrow> Inl e
              | Inr balance \<Rightarrow>
               (let writer = writeUInt64LEBN writer balance;
                    writer = writeUInt32LE writer sighashType
                in if inputNumber < length (inputs transaction)
                   then (let input = inputs transaction ! inputNumber;
                             writer = writeReverse writer (prevTxId input);
                             writer = writeUInt32LE writer (outputIndex input);
                             writer = writeVarintNum writer (length subscript);
                             writer = writeBuf writer subscript
                         in case output_spent input of
                              None \<Rightarrow> Inl TypeError
                            | Some spent \<Rightarrow>
                               (case new_BN (uint (satoshis spent)) of
                                  Inl e \<Rightarrow> Inl e
                                | Inr val \<Rightarrow>
                                   (let writer = writeUInt64LEBN writer val;
                                        writer = writeUInt32LE writer (sequenceNumber input);
                                        ret = getBlake2bHash P (toBuffer writer)
                                                (personalization transaction)
                                    in Inr (readReverse ret))))
                   else Inl TypeError)))"

subsection \<open>The legacy builder (sighash, lines 184-249)\<close>

text \<open>The legacy builder either returns a digest at once (line 225) or goes on with
  the transaction copy it has built.\<close>

datatype 'a early = Return bytes | Continue 'a

text \<open>Modelled from the spec: \<open>Transaction.shallowCopy\<close> of transaction.js gives a
  snapshot with the fields of the transaction.\<close>

definition shallowCopy :: "Transaction \<Rightarrow> Transaction" where
  "shallowCopy transaction = transaction"

text \<open>Modelled from the spec: \<open>new Input(x).setScript(s)\<close> of input.js gives an
  input with the fields of \<open>x\<close> and the script \<open>s\<close>.\<close>

definition setScript :: "Input \<Rightarrow> script \<Rightarrow> Input" where
  "setScript input s = input\<lparr>script := s\<rparr>"

text \<open>Lines 200-203: every input gets the empty script.\<close>

definition blank_scripts :: "Input list \<Rightarrow> Input list" where
  "blank_scripts ins =
     fold (\<lambda>i ins. ins[i := setScript (ins ! i) []]) [0..<length ins] ins"

text \<open>Lines 211-215: the sequence number of every input but \<open>inputNumber\<close> is set
  to 0.\<close>

definition clear_sequenceNumbers :: "nat \<Rightarrow> Input list \<Rightarrow> Input list" where
  "clear_sequenceNumbers inputNumber ins =
     fold (\<lambda>i ins. if i \<noteq> inputNumber then ins[i := (ins ! i)\<lparr>sequenceNumber := 0\<rparr>] else ins)
       [0..<length ins] ins"

text \<open>Lines 230-235: the outputs before \<open>inputNumber\<close> are replaced.\<close>

definition null_output :: Output where
  "null_output = \<lparr>satoshis = BITS_64_ON, lockingScript = []\<rparr>"

definition null_outputs :: "nat \<Rightarrow> Output list \<Rightarrow> Output list" where
  "null_outputs inputNumber outs =
     fold (\<lambda>i outs. outs[i := null_output]) [0..<inputNumber] outs"

text \<open>Lines 218-236. \<open>txcopy.outputs.length = inputNumber + 1\<close> is reached only with
  \<open>inputNumber\<close> below the length, where it truncates.\<close>

definition legacy_outputs :: "Transaction \<Rightarrow> u32 \<Rightarrow> nat \<Rightarrow> Transaction early" where
  "legacy_outputs txcopy sighashType inputNumber =
     (if sighashType AND 31 = SIGHASH_NONE then Continue (txcopy\<lparr>outputs := []\<rparr>)
      else if sighashType AND 31 = SIGHASH_SINGLE then
        (if inputNumber \<ge> length (outputs txcopy) then Return SIGHASH_SINGLE_BUG
         else Continue (txcopy\<lparr>outputs :=
                 null_outputs inputNumber (take (inputNumber + 1) (outputs txcopy))\<rparr>))
      else Continue txcopy)"

text \<open>
  Lines 192-240: the copy and its overrides, up to the serialization. With
  \<open>inputNumber\<close> out of range, line 205 assigns beyond the end of the array an input
  built by \<open>new Input(undefined)\<close>, which input.js defines; the data model requires
  \<open>inputNumber\<close> to index an input, and the model reports such a call as an error.
\<close>

definition legacy_txcopy ::
  "('priv, 'pub, 'sv) prims \<Rightarrow> Transaction \<Rightarrow> u32 \<Rightarrow> nat \<Rightarrow> script
     \<Rightarrow> error + Transaction early" where
  "legacy_txcopy P transaction sighashType inputNumber subscript =
     (let txcopy = shallowCopy transaction;
          subscript = removeCodeseparators P subscript;
          txcopy = txcopy\<lparr>inputs := blank_scripts (inputs txcopy)\<rparr>
      in if inputNumber < length (inputs txcopy)
         then (let txcopy = txcopy\<lparr>inputs := (inputs txcopy)
                              [inputNumber := setScript (inputs txcopy ! inputNumber) subscript]\<rparr>;
                   txcopy = (if sighashType AND 31 = SIGHASH_NONE \<or>
                                sighashType AND 31 = SIGHASH_SINGLE
                             then txcopy\<lparr>inputs :=
                                    clear_sequenceNumbers inputNumber (inputs txcopy)\<rparr>
                             else txcopy)
               in case legacy_outputs txcopy sighashType inputNumber of
                    Return buf \<Rightarrow> Inr (Return buf)
                  | Continue txcopy \<Rightarrow>
                      Inr (Continue
                        (if sighashType AND SIGHASH_ANYONECANPAY \<noteq> 0
                         then txcopy\<lparr>inputs := [inputs txcopy ! inputNumber]\<rparr>
                         else txcopy)))
         else Inl TypeError)"

text \<open>The dispatcher and the end of the legacy path (lines 188-190 and 242-248).\<close>

definition sighash ::
  "('priv, 'pub, 'sv) prims \<Rightarrow> Transaction \<Rightarrow> u32 \<Rightarrow> nat \<Rightarrow> script \<Rightarrow> error + bytes" where
  "sighash P transaction sighashType inputNumber subscript =
     (if version transaction \<ge> 4
      then sighashSapling P transaction sighashType inputNumber subscript
      else case legacy_txcopy P transaction sighashType inputNumber subscript of
             Inl e \<Rightarrow> Inl e
           | Inr (Return buf) \<Rightarrow> Inr buf
           | Inr (Continue txcopy) \<Rightarrow>
              (let buf = toBuffer (writeInt32LE (writeBuf [] (tx_toBuffer P txcopy)) sighashType);
                   ret = sha256sha256 P buf
               in Inr (readReverse ret)))"

subsection \<open>Signing and verifying (lines 262-286)\<close>

text \<open>Modelled from the spec: \<open>set({nhashtype: t})\<close> of crypto/signature.js attaches
  the type to the signature.\<close>

definition set_nhashtype :: "'sv Signature \<Rightarrow> u32 \<Rightarrow> 'sv Signature" where
  "set_nhashtype sig t = sig\<lparr>nhashtype := Some t\<rparr>"

definition sign ::
  "('priv, 'pub, 'sv) prims \<Rightarrow> Transaction \<Rightarrow> 'priv \<Rightarrow> u32 \<Rightarrow> nat \<Rightarrow> script
     \<Rightarrow> error + 'sv Signature" where
  "sign P transaction privateKey sighashType inputIndex subscript =
     (case sighash P transaction sighashType inputIndex subscript of
        Inl e \<Rightarrow> Inl e
      | Inr hashbuf \<Rightarrow>
          Inr (set_nhashtype (ecdsa_sign P hashbuf privateKey Little) sighashType))"

text \<open>An argument that is \<open>undefined\<close> is \<open>None\<close>; \<open>$.checkArgument\<close> throws on a
  false condition.\<close>

definition verify ::
  "('priv, 'pub, 'sv) prims \<Rightarrow> Transaction option \<Rightarrow> 'sv Signature option \<Rightarrow> 'pub \<Rightarrow> nat
     \<Rightarrow> script \<Rightarrow> error + bool" where
  "verify P transaction signature publicKey inputIndex subscript =
     (case transaction of
        None \<Rightarrow> Inl InvalidArgument
      | Some tx \<Rightarrow>
         (case signature of
            None \<Rightarrow> Inl InvalidArgument
          | Some sig \<Rightarrow>
             (case nhashtype sig of
                None \<Rightarrow> Inl InvalidArgument
              | Some t \<Rightarrow>
                 (case sighash P tx t inputIndex subscript of
                    Inl e \<Rightarrow> Inl e
                  | Inr hashbuf \<Rightarrow> Inr (ecdsa_verify P hashbuf sig publicKey Little)))))"

subsection \<open>The specification's wording\<close>

text \<open>
  The preimage layout of section 4.2, field by field, with the three sub-hashes and the
  spent output as arguments, and the digest the specification derives from it for a
  given consensus branch id.
\<close>

definition spec_sapling_preimage ::
  "Transaction \<Rightarrow> u32 \<Rightarrow> nat \<Rightarrow> script \<Rightarrow> bytes \<Rightarrow> bytes \<Rightarrow> bytes \<Rightarrow> Output \<Rightarrow> bytes" where
  "spec_sapling_preimage tx ty n sub hp hs ho spent =
     le32 (word_of_int (version tx) OR 0x80000000) @
     le32 (nVersionGroupId tx) @
     hp @ hs @ ho @
     replicate 32 0 @ replicate 32 0 @ replicate 32 0 @
     le32 (nLockTime tx) @
     le32 (nExpiryHeight tx) @
     le64 (word_of_int (valueBalance tx)) @
     le32 ty @
     rev (prevTxId (inputs tx ! n)) @
     le32 (outputIndex (inputs tx ! n)) @
     varint (length sub) @ sub @
     le64 (satoshis spent) @
     le32 (sequenceNumber (inputs tx ! n))"

definition spec_sapling_digest ::
  "('priv, 'pub, 'sv) prims \<Rightarrow> u32 \<Rightarrow> bytes \<Rightarrow> bytes" where
  "spec_sapling_digest P branch preimage =
     rev (blake2b P (ascii ''ZcashSigHash'' @ le32 branch) preimage)"

text \<open>
  The legacy overrides of section 4.1 in the order the specification lists them: the
  script substitution, then steps 1 to 4.
\<close>

definition spec_substitute_scripts :: "script \<Rightarrow> nat \<Rightarrow> Input list \<Rightarrow> Input list" where
  "spec_substitute_scripts s n ins =
     map (\<lambda>k. (ins ! k)\<lparr>script := (if k = n then s else [])\<rparr>) [0..<length ins]"

definition spec_zero_sequences :: "nat \<Rightarrow> Input list \<Rightarrow> Input list" where
  "spec_zero_sequences n ins =
     map (\<lambda>k. if k = n then ins ! k else (ins ! k)\<lparr>sequenceNumber := 0\<rparr>) [0..<length ins]"

definition spec_single_outputs :: "nat \<Rightarrow> Output list \<Rightarrow> Output list" where
  "spec_single_outputs n outs =
     map (\<lambda>k. if k < n then \<lparr>satoshis = 0xFFFFFFFFFFFFFFFF, lockingScript = []\<rparr> else outs ! k)
       [0..<n + 1]"

definition spec_legacy ::
  "('priv, 'pub, 'sv) prims \<Rightarrow> Transaction \<Rightarrow> u32 \<Rightarrow> nat \<Rightarrow> script \<Rightarrow> Transaction early" where
  "spec_legacy P tx ty n sub =
     (let sel = ty AND 31;
          t0 = tx\<lparr>inputs := spec_substitute_scripts (removeCodeseparators P sub) n (inputs tx)\<rparr>;
          t1 = (if sel = 2 \<or> sel = 3 then t0\<lparr>inputs := spec_zero_sequences n (inputs t0)\<rparr> else t0);
          t2 = (if sel = 2 then t1\<lparr>outputs := []\<rparr> else t1)
      in if sel = 3 \<and> n \<ge> length (outputs t2) then Return (replicate 31 0 @ [1])
         else (let t3 = (if sel = 3 then t2\<lparr>outputs := spec_single_outputs n (outputs t2)\<rparr> else t2);
                   t4 = (if ty AND 0x80 \<noteq> 0 then t3\<lparr>inputs := [inputs t3 ! n]\<rparr> else t3)
               in Continue t4))"

text \<open>The inputs of the copy after lines 200-216, in closed form; \<open>z\<close> says whether
  the sequence numbers are cleared.\<close>

definition legacy_inputs :: "bool \<Rightarrow> script \<Rightarrow> nat \<Rightarrow> Input list \<Rightarrow> Input list" where
  "legacy_inputs z s n ins =
     map (\<lambda>k. if k = n then (ins ! k)\<lparr>script := s\<rparr>
              else if z then (ins ! k)\<lparr>script := [], sequenceNumber := 0\<rparr>
              else (ins ! k)\<lparr>script := []\<rparr>) [0..<length ins]"

text \<open>What the caller owes: \<open>inputNumber\<close> indexes an input, and from version 4 on
  that input carries the output it spends, and the value balance and the spent value are
  numbers that \<open>new BN\<close> takes.\<close>

definition well_formed :: "Transaction \<Rightarrow> nat \<Rightarrow> bool" where
  "well_formed transaction inputNumber =
     (inputNumber < length (inputs transaction) \<and>
      (version transaction < 4 \<or>
       \<bar>valueBalance transaction\<bar> < 2 ^ 53 \<and>
       (\<exists>spent. output_spent (inputs transaction ! inputNumber) = Some spent \<and>
                uint (satoshis spent) < 2 ^ 53)))"

text \<open>The hashes return 32 bytes: the personalized hash is called for the length of a
  32-byte buffer (lines 48-49), the double hash is SHA-256.\<close>

definition digests32 :: "('priv, 'pub, 'sv) prims \<Rightarrow> bool" where
  "digests32 P =
     ((\<forall>p d. length (blake2b P p d) = 32) \<and> (\<forall>d. length (sha256sha256 P d) = 32))"

text \<open>A key pair matches when the curve primitive accepts, under the public key, every
  signature it makes with the private key over a little-endian digest of 32 bytes,
  whatever type is attached to it afterwards.\<close>

definition key_pair :: "('priv, 'pub, 'sv) prims \<Rightarrow> 'priv \<Rightarrow> 'pub \<Rightarrow> bool" where
  "key_pair P privateKey publicKey =
     (\<forall>hashbuf t. length hashbuf = 32 \<longrightarrow>
        ecdsa_verify P hashbuf
          (set_nhashtype (ecdsa_sign P hashbuf privateKey Little) t) publicKey Little)"

subsection \<open>Sample inputs\<close>

text \<open>
  Stand-ins for the collaborators, for evaluating the definitions on concrete inputs:
  the hashes keep their arguments readable, the serializations follow the usual
  layout, and a signature is the pair of the digest and the key.
\<close>

definition sample_output_bytes :: "Output \<Rightarrow> bytes" where
  "sample_output_bytes out =
     le64 (satoshis out) @ varint (length (lockingScript out)) @ lockingScript out"

definition sample_input_bytes :: "Input \<Rightarrow> bytes" where
  "sample_input_bytes i =
     rev (prevTxId i) @ le32 (outputIndex i) @ varint (length (script i)) @ script i @
     le32 (sequenceNumber i)"

definition sample_tx_bytes :: "Transaction \<Rightarrow> bytes" where
  "sample_tx_bytes tx =
     le32 (word_of_int (version tx)) @
     varint (length (inputs tx)) @ concat (map sample_input_bytes (inputs tx)) @
     varint (length (outputs tx)) @ concat (map sample_output_bytes (outputs tx)) @
     le32 (nLockTime tx)"

definition sample_prims :: "(nat, nat, bytes \<times> nat) prims" where
  "sample_prims =
     \<lparr>blake2b = (\<lambda>p d. p @ d),
      sha256sha256 = (\<lambda>d. d),
      tx_toBuffer = sample_tx_bytes,
      output_toBuffer = sample_output_bytes,
      removeCodeseparators = filter (\<lambda>b. b \<noteq> 0xab),
      ecdsa_sign = (\<lambda>h k e. \<lparr>sigvalue = (h, k), nhashtype = None\<rparr>),
      ecdsa_verify = (\<lambda>h sig k e. sigvalue sig = (h, k))\<rparr>"

text \<open>The same with hashes cut or filled to 32 bytes and a curve primitive that takes a
  digest of 32 bytes only.\<close>

definition sample_prims32 :: "(nat, nat, bytes \<times> nat) prims" where
  "sample_prims32 =
     \<lparr>blake2b = (\<lambda>p d. take 32 (p @ d @ replicate 32 0)),
      sha256sha256 = (\<lambda>d. take 32 (d @ replicate 32 0)),
      tx_toBuffer = sample_tx_bytes,
      output_toBuffer = sample_output_bytes,
      removeCodeseparators = filter (\<lambda>b. b \<noteq> 0xab),
      ecdsa_sign = (\<lambda>h k e. \<lparr>sigvalue = (h, k), nhashtype = None\<rparr>),
      ecdsa_verify = (\<lambda>h sig k e. length h = 32 \<and> sigvalue sig = (h, k))\<rparr>"

definition sample_input :: "byte \<Rightarrow> u32 \<Rightarrow> Input" where
  "sample_input b q =
     \<lparr>prevTxId = b # replicate 31 0, outputIndex = 0, sequenceNumber = q, script = [0x51],
      output_spent = Some \<lparr>satoshis = 1000, lockingScript = [0x52]\<rparr>\<rparr>"

definition sample_tx :: "int \<Rightarrow> u32 option \<Rightarrow> Transaction" where
  "sample_tx v b =
     \<lparr>version = v, nVersionGroupId = 0x892f2085,
      inputs = [sample_input 1 7, sample_input 9 8],
      outputs = [\<lparr>satoshis = 5, lockingScript = [0x53]\<rparr>],
      nLockTime = 0, nExpiryHeight = 0, valueBalance = 0, branchId = b\<rparr>"

definition sample_tx3 :: Transaction where
  "sample_tx3 =
     \<lparr>version = 1, nVersionGroupId = 0,
      inputs = [sample_input 1 7, sample_input 9 8, sample_input 4 6],
      outputs = [\<lparr>satoshis = 5, lockingScript = [0x53]\<rparr>,
                 \<lparr>satoshis = 6, lockingScript = [0x54]\<rparr>,
                 \<lparr>satoshis = 7, lockingScript = [0x55]\<rparr>],
      nLockTime = 0, nExpiryHeight = 0, valueBalance = 0, branchId = None\<rparr>"

subsection \<open>The builder on a store of objects\<close>

text \<open>
  The legacy builder assigns to array slots, array lengths and object fields. Whether
  the caller's objects change depends on what these share with the copy, so here the
  transaction objects, the arrays of inputs and outputs, the input objects and the script
  objects live in a store and are named by references; a reference is the index of the
  object in its part of the store, and a new object goes to the end. An input keeps the
  bytes of its script and an array of outputs keeps the outputs themselves: the builder
  replaces them only as a whole.
\<close>

type_synonym ref = nat

record TxObj =
  o_version :: int
  o_nVersionGroupId :: u32
  o_inputs :: ref
  o_outputs :: ref
  o_nLockTime :: u32
  o_nExpiryHeight :: u32
  o_valueBalance :: int
  o_branchId :: "u32 option"

record store =
  h_txs :: "TxObj list"
  h_inputArrays :: "ref list list"
  h_inputs :: "Input list"
  h_outputArrays :: "Output list list"
  h_scripts :: "script list"

definition lookup :: "'a list \<Rightarrow> ref \<Rightarrow> 'a option" where
  "lookup xs r = (if r < length xs then Some (xs ! r) else None)"

text \<open>An action runs on a store and returns a value or an error together with the
  store it leaves; an error keeps the store as it was when it was raised.\<close>

type_synonym 'a action = "store \<Rightarrow> (error + 'a) \<times> store"

definition ret :: "'a \<Rightarrow> 'a action" where
  "ret x h = (Inr x, h)"

definition raise :: "error \<Rightarrow> 'a action" where
  "raise e h = (Inl e, h)"

definition andThen :: "'a action \<Rightarrow> ('a \<Rightarrow> 'b action) \<Rightarrow> 'b action" where
  "andThen m f h = (case m h of (Inl e, h') \<Rightarrow> (Inl e, h') | (Inr x, h') \<Rightarrow> f x h')"

primrec forEach :: "nat list \<Rightarrow> (nat \<Rightarrow> unit action) \<Rightarrow> unit action" where
  "forEach [] body = ret ()"
| "forEach (i # is) body = andThen (body i) (\<lambda>_. forEach is body)"

text \<open>Reading: a reference to no object is \<open>undefined\<close>, and using it throws.\<close>

definition deref :: "(store \<Rightarrow> 'a list) \<Rightarrow> ref \<Rightarrow> 'a action" where
  "deref part r h = (case lookup (part h) r of None \<Rightarrow> (Inl TypeError, h) | Some x \<Rightarrow> (Inr x, h))"

definition tx_value :: "TxObj \<Rightarrow> Input list \<Rightarrow> Output list \<Rightarrow> Transaction" where
  "tx_value obj ins outs =
     \<lparr>version = o_version obj, nVersionGroupId = o_nVersionGroupId obj,
      inputs = ins, outputs = outs,
      nLockTime = o_nLockTime obj, nExpiryHeight = o_nExpiryHeight obj,
      valueBalance = o_valueBalance obj, branchId = o_branchId obj\<rparr>"

definition read_tx :: "store \<Rightarrow> ref \<Rightarrow> Transaction option" where
  "read_tx h t =
     (case lookup (h_txs h) t of
        None \<Rightarrow> None
      | Some obj \<Rightarrow>
         (case lookup (h_inputArrays h) (o_inputs obj) of
            None \<Rightarrow> None
          | Some rs \<Rightarrow>
             (case those (map (lookup (h_inputs h)) rs) of
                None \<Rightarrow> None
              | Some ins \<Rightarrow>
                 (case lookup (h_outputArrays h) (o_outputs obj) of
                    None \<Rightarrow> None
                  | Some outs \<Rightarrow> Some (tx_value obj ins outs)))))"

definition get_tx :: "ref \<Rightarrow> Transaction action" where
  "get_tx t h = (case read_tx h t of None \<Rightarrow> (Inl TypeError, h) | Some tx \<Rightarrow> (Inr tx, h))"

definition inputs_array :: "ref \<Rightarrow> (ref \<times> ref list) action" where
  "inputs_array t =
     andThen (deref h_txs t) (\<lambda>obj.
     andThen (deref h_inputArrays (o_inputs obj)) (\<lambda>rs. ret (o_inputs obj, rs)))"

definition outputs_array :: "ref \<Rightarrow> (ref \<times> Output list) action" where
  "outputs_array t =
     andThen (deref h_txs t) (\<lambda>obj.
     andThen (deref h_outputArrays (o_outputs obj)) (\<lambda>outs. ret (o_outputs obj, outs)))"

text \<open>Allocation.\<close>

definition new_Input :: "Input \<Rightarrow> ref action" where
  "new_Input x h = (Inr (length (h_inputs h)), h\<lparr>h_inputs := h_inputs h @ [x]\<rparr>)"

definition new_inputArray :: "ref list \<Rightarrow> ref action" where
  "new_inputArray rs h =
     (Inr (length (h_inputArrays h)), h\<lparr>h_inputArrays := h_inputArrays h @ [rs]\<rparr>)"

definition new_outputArray :: "Output list \<Rightarrow> ref action" where
  "new_outputArray outs h =
     (Inr (length (h_outputArrays h)), h\<lparr>h_outputArrays := h_outputArrays h @ [outs]\<rparr>)"

text \<open>Modelled from the spec: \<open>new Script(s)\<close> of script.js, for a script object
  \<open>s\<close>, gives a new object with the same bytes.\<close>

definition new_Script :: "ref \<Rightarrow> ref action" where
  "new_Script s =
     andThen (deref h_scripts s) (\<lambda>v h.
       (Inr (length (h_scripts h)), h\<lparr>h_scripts := h_scripts h @ [v]\<rparr>))"

text \<open>Modelled from the spec: \<open>new Transaction(bytes)\<close> of transaction.js builds the
  objects of a transaction from its serialization: a new transaction object, new arrays
  and new input objects.\<close>

definition new_Transaction :: "Transaction \<Rightarrow> ref action" where
  "new_Transaction tx h =
     (Inr (length (h_txs h)),
      h\<lparr>h_inputs := h_inputs h @ inputs tx,
        h_inputArrays := h_inputArrays h @
          [[length (h_inputs h)..<length (h_inputs h) + length (inputs tx)]],
        h_outputArrays := h_outputArrays h @ [outputs tx],
        h_txs := h_txs h @
          [\<lparr>o_version = version tx, o_nVersionGroupId = nVersionGroupId tx,
            o_inputs = length (h_inputArrays h), o_outputs = length (h_outputArrays h),
            o_nLockTime = nLockTime tx, o_nExpiryHeight = nExpiryHeight tx,
            o_valueBalance = valueBalance tx, o_branchId = branchId tx\<rparr>]\<rparr>)"

text \<open>Modelled from the spec: \<open>Transaction.shallowCopy\<close> of transaction.js, the
  snapshot, rebuilds the transaction from its serialization.\<close>

definition shallowCopy_store :: "ref \<Rightarrow> ref action" where
  "shallowCopy_store transaction = andThen (get_tx transaction) new_Transaction"

text \<open>Assignment in place: to an array slot, an array length, a field of an object.\<close>

definition set_input_slot :: "ref \<Rightarrow> nat \<Rightarrow> ref \<Rightarrow> unit action" where
  "set_input_slot a i r h =
     (if a < length (h_inputArrays h)
      then (Inr (), h\<lparr>h_inputArrays := (h_inputArrays h)[a := (h_inputArrays h ! a)[i := r]]\<rparr>)
      else (Inl TypeError, h))"

definition set_sequenceNumber :: "ref \<Rightarrow> u32 \<Rightarrow> unit action" where
  "set_sequenceNumber r q h =
     (if r < length (h_inputs h)
      then (Inr (), h\<lparr>h_inputs := (h_inputs h)[r := (h_inputs h ! r)\<lparr>sequenceNumber := q\<rparr>]\<rparr>)
      else (Inl TypeError, h))"

definition set_outputs_length :: "ref \<Rightarrow> nat \<Rightarrow> unit action" where
  "set_outputs_length a k h =
     (if a < length (h_outputArrays h)
      then (Inr (), h\<lparr>h_outputArrays := (h_outputArrays h)[a := take k (h_outputArrays h ! a)]\<rparr>)
      else (Inl TypeError, h))"

definition set_output_slot :: "ref \<Rightarrow> nat \<Rightarrow> Output \<Rightarrow> unit action" where
  "set_output_slot a i out h =
     (if a < length (h_outputArrays h)
      then (Inr (), h\<lparr>h_outputArrays := (h_outputArrays h)[a := (h_outputArrays h ! a)[i := out]]\<rparr>)
      else (Inl TypeError, h))"

definition set_tx_inputs :: "ref \<Rightarrow> ref \<Rightarrow> unit action" where
  "set_tx_inputs t a h =
     (if t < length (h_txs h)
      then (Inr (), h\<lparr>h_txs := (h_txs h)[t := (h_txs h ! t)\<lparr>o_inputs := a\<rparr>]\<rparr>)
      else (Inl TypeError, h))"

definition set_tx_outputs :: "ref \<Rightarrow> ref \<Rightarrow> unit action" where
  "set_tx_outputs t a h =
     (if t < length (h_txs h)
      then (Inr (), h\<lparr>h_txs := (h_txs h)[t := (h_txs h ! t)\<lparr>o_outputs := a\<rparr>]\<rparr>)
      else (Inl TypeError, h))"

text \<open>Modelled from the spec: \<open>removeCodeseparators()\<close> of script.js rewrites the
  script object it is called on.\<close>

definition removeCodeseparators_store :: "('priv, 'pub, 'sv) prims \<Rightarrow> ref \<Rightarrow> unit action" where
  "removeCodeseparators_store P s h =
     (if s < length (h_scripts h)
      then (Inr (), h\<lparr>h_scripts := (h_scripts h)[s := removeCodeseparators P (h_scripts h ! s)]\<rparr>)
      else (Inl TypeError, h))"

text \<open>\<open>txcopy.inputs[i] = new Input(txcopy.inputs[i]).setScript(s)\<close> (lines 202 and
  205); out of range see \<open>legacy_txcopy\<close>.\<close>

definition replace_input :: "ref \<Rightarrow> nat \<Rightarrow> script \<Rightarrow> unit action" where
  "replace_input txcopy i s =
     andThen (inputs_array txcopy) (\<lambda>(a, rs).
       if i < length rs
       then andThen (deref h_inputs (rs ! i)) (\<lambda>x.
            andThen (new_Input (setScript x s)) (\<lambda>r. set_input_slot a i r))
       else raise TypeError)"

text \<open>Lines 200-203.\<close>

definition blank_scripts_store :: "ref \<Rightarrow> unit action" where
  "blank_scripts_store txcopy =
     andThen (inputs_array txcopy) (\<lambda>(a, rs).
       forEach [0..<length rs] (\<lambda>i. replace_input txcopy i []))"

text \<open>Lines 211-215: \<open>txcopy.inputs[i].sequenceNumber = 0\<close> writes to the input
  object in the slot.\<close>

definition clear_sequenceNumbers_store :: "nat \<Rightarrow> ref \<Rightarrow> unit action" where
  "clear_sequenceNumbers_store inputNumber txcopy =
     andThen (inputs_array txcopy) (\<lambda>(a, rs).
       forEach [0..<length rs] (\<lambda>i.
         if i \<noteq> inputNumber
         then andThen (inputs_array txcopy) (\<lambda>(a, rs).
                if i < length rs then set_sequenceNumber (rs ! i) 0 else raise TypeError)
         else ret ()))"

text \<open>Lines 218-236: \<open>txcopy.outputs = []\<close> gives the copy a new array;
  \<open>txcopy.outputs.length = inputNumber + 1\<close> and \<open>txcopy.outputs[i] = ...\<close> write
  to the array the copy has.\<close>

definition legacy_outputs_store :: "ref \<Rightarrow> u32 \<Rightarrow> nat \<Rightarrow> unit early action" where
  "legacy_outputs_store txcopy sighashType inputNumber =
     (if sighashType AND 31 = SIGHASH_NONE
      then andThen (new_outputArray []) (\<lambda>a.
           andThen (set_tx_outputs txcopy a) (\<lambda>_. ret (Continue ())))
      else if sighashType AND 31 = SIGHASH_SINGLE
      then andThen (outputs_array txcopy) (\<lambda>(a, outs).
             if inputNumber \<ge> length outs then ret (Return SIGHASH_SINGLE_BUG)
             else andThen (set_outputs_length a (inputNumber + 1)) (\<lambda>_.
                  andThen (forEach [0..<inputNumber] (\<lambda>i. set_output_slot a i null_output)) (\<lambda>_.
                  ret (Continue ()))))
      else ret (Continue ()))"

text \<open>Lines 238-240: \<open>txcopy.inputs = [txcopy.inputs[inputNumber]]\<close>.\<close>

definition collapse_inputs :: "ref \<Rightarrow> nat \<Rightarrow> unit action" where
  "collapse_inputs txcopy inputNumber =
     andThen (inputs_array txcopy) (\<lambda>(a, rs).
       if inputNumber < length rs
       then andThen (new_inputArray [rs ! inputNumber]) (\<lambda>a'. set_tx_inputs txcopy a')
       else raise TypeError)"

text \<open>Lines 192-240 on the store; the result is the reference of the copy.\<close>

definition legacy_txcopy_store ::
  "('priv, 'pub, 'sv) prims \<Rightarrow> ref \<Rightarrow> u32 \<Rightarrow> nat \<Rightarrow> ref \<Rightarrow> ref early action" where
  "legacy_txcopy_store P transaction sighashType inputNumber subscript =
     andThen (shallowCopy_store transaction) (\<lambda>txcopy.
     andThen (new_Script subscript) (\<lambda>subscript.
     andThen (removeCodeseparators_store P subscript) (\<lambda>_.
     andThen (blank_scripts_store txcopy) (\<lambda>_.
     andThen (deref h_scripts subscript) (\<lambda>s.
     andThen (replace_input txcopy inputNumber s) (\<lambda>_.
     andThen (if sighashType AND 31 = SIGHASH_NONE \<or> sighashType AND 31 = SIGHASH_SINGLE
              then clear_sequenceNumbers_store inputNumber txcopy else ret ()) (\<lambda>_.
     andThen (legacy_outputs_store txcopy sighashType inputNumber) (\<lambda>r.
       case r of
         Return buf \<Rightarrow> ret (Return buf)
       | Continue _ \<Rightarrow>
           andThen (if sighashType AND SIGHASH_ANYONECANPAY \<noteq> 0
                    then collapse_inputs txcopy inputNumber else ret ()) (\<lambda>_.
           ret (Continue txcopy))))))))))"

text \<open>\<open>sighash\<close>, \<open>sign\<close> and \<open>verify\<close> on the store. The Sapling-era builder only
  reads.\<close>

definition sighash_store ::
  "('priv, 'pub, 'sv) prims \<Rightarrow> ref \<Rightarrow> u32 \<Rightarrow> nat \<Rightarrow> ref \<Rightarrow> bytes action" where
  "sighash_store P transaction sighashType inputNumber subscript =
     andThen (deref h_txs transaction) (\<lambda>obj.
       if o_version obj \<ge> 4
       then andThen (get_tx transaction) (\<lambda>tx.
            andThen (deref h_scripts subscript) (\<lambda>s h.
              (sighashSapling P tx sighashType inputNumber s, h)))
       else andThen (legacy_txcopy_store P transaction sighashType inputNumber subscript) (\<lambda>r.
              case r of
                Return buf \<Rightarrow> ret buf
              | Continue txcopy \<Rightarrow>
                  andThen (get_tx txcopy) (\<lambda>tx.
                    (let buf = toBuffer (writeInt32LE (writeBuf [] (tx_toBuffer P tx)) sighashType);
                         ret' = sha256sha256 P buf
                     in ret (readReverse ret')))))"

definition sign_store ::
  "('priv, 'pub, 'sv) prims \<Rightarrow> ref \<Rightarrow> 'priv \<Rightarrow> u32 \<Rightarrow> nat \<Rightarrow> ref \<Rightarrow> 'sv Signature action" where
  "sign_store P transaction privateKey sighashType inputIndex subscript =
     andThen (sighash_store P transaction sighashType inputIndex subscript) (\<lambda>hashbuf.
       ret (set_nhashtype (ecdsa_sign P hashbuf privateKey Little) sighashType))"

definition verify_store ::
  "('priv, 'pub, 'sv) prims \<Rightarrow> ref option \<Rightarrow> 'sv Signature option \<Rightarrow> 'pub \<Rightarrow> nat \<Rightarrow> ref
     \<Rightarrow> bool action" where
  "verify_store P transaction signature publicKey inputIndex subscript =
     (case transaction of
        None \<Rightarrow> raise InvalidArgument
      | Some tx \<Rightarrow>
         (case signature of
            None \<Rightarrow> raise InvalidArgument
          | Some sig \<Rightarrow>
             (case nhashtype sig of
                None \<Rightarrow> raise InvalidArgument
              | Some t \<Rightarrow>
                  andThen (sighash_store P tx t inputIndex subscript) (\<lambda>hashbuf.
                    ret (ecdsa_verify P hashbuf sig publicKey Little)))))"

text \<open>One store extends another when every object of the other is still there,
  unchanged: each part of the other is an initial segment of the same part.\<close>

definition extends :: "store \<Rightarrow> store \<Rightarrow> bool" where
  "extends h h' =
     (prefix (h_txs h) (h_txs h') \<and>
      prefix (h_inputArrays h) (h_inputArrays h') \<and>
      prefix (h_inputs h) (h_inputs h') \<and>
      prefix (h_outputArrays h) (h_outputArrays h') \<and>
      prefix (h_scripts h) (h_scripts h'))"

text \<open>The copy is apart from the objects of \<open>h0\<close>: the transaction object, its two
  arrays and the input objects in its array of inputs are all new.\<close>

definition apart :: "store \<Rightarrow> ref \<Rightarrow> store \<Rightarrow> bool" where
  "apart h0 txcopy h =
     (length (h_txs h0) \<le> txcopy \<and>
      (\<forall>obj. lookup (h_txs h) txcopy = Some obj \<longrightarrow>
         length (h_inputArrays h0) \<le> o_inputs obj \<and>
         length (h_outputArrays h0) \<le> o_outputs obj \<and>
         (\<forall>rs. lookup (h_inputArrays h) (o_inputs obj) = Some rs \<longrightarrow>
            (\<forall>r \<in> set rs. length (h_inputs h0) \<le> r))))"

text \<open>An action keeps the objects of \<open>h0\<close>: from a store that extends \<open>h0\<close> and
  satisfies \<open>Q\<close> it leaves a store that extends \<open>h0\<close>, and a value it returns
  satisfies \<open>R\<close> there.\<close>

definition keeps :: "store \<Rightarrow> (store \<Rightarrow> bool) \<Rightarrow> 'a action \<Rightarrow> ('a \<Rightarrow> store \<Rightarrow> bool) \<Rightarrow> bool" where
  "keeps h0 Q m R =
     (\<forall>h. extends h0 h \<and> Q h \<longrightarrow>
        extends h0 (snd (m h)) \<and> (\<forall>x. fst (m h) = Inr x \<longrightarrow> R x (snd (m h))))"


text \<open>The copy \<open>txcopy\<close> stands for the transaction \<open>X\<close> in the store \<open>h\<close>: its
  objects are there, the slots of its array of inputs hold different input objects, and
  read as values they give \<open>X\<close>. \<open>S\<close> is the script part of the store.\<close>

definition rep :: "ref \<Rightarrow> script list \<Rightarrow> Transaction \<Rightarrow> store \<Rightarrow> bool" where
  "rep txcopy S X h =
     (h_scripts h = S \<and>
      (\<exists>obj rs outs.
         lookup (h_txs h) txcopy = Some obj \<and>
         lookup (h_inputArrays h) (o_inputs obj) = Some rs \<and>
         distinct rs \<and> (\<forall>r \<in> set rs. r < length (h_inputs h)) \<and>
         lookup (h_outputArrays h) (o_outputs obj) = Some outs \<and>
         X = tx_value obj (map ((!) (h_inputs h)) rs) outs))"

text \<open>The action returns \<open>x\<close> from \<open>h\<close> and leaves a store that satisfies \<open>R\<close>.\<close>

definition returns :: "'a action \<Rightarrow> store \<Rightarrow> 'a \<Rightarrow> (store \<Rightarrow> bool) \<Rightarrow> bool" where
  "returns m h x R = (\<exists>h'. m h = (Inr x, h') \<and> R h')"

text \<open>A store holding the sample transaction with three inputs and a subscript.\<close>

definition sample_store :: store where
  "sample_store =
     \<lparr>h_txs = [\<lparr>o_version = 1, o_nVersionGroupId = 0, o_inputs = 0, o_outputs = 0,
                o_nLockTime = 0, o_nExpiryHeight = 0, o_valueBalance = 0, o_branchId = None\<rparr>],
      h_inputArrays = [[0, 1, 2]],
      h_inputs = [sample_input 1 7, sample_input 9 8, sample_input 4 6],
      h_outputArrays = [[\<lparr>satoshis = 5, lockingScript = [0x53]\<rparr>,
                         \<lparr>satoshis = 6, lockingScript = [0x54]\<rparr>,
                         \<lparr>satoshis = 7, lockingScript = [0x55]\<rparr>]],
      h_scripts = [[0x51, 0xab, 0x52]]\<rparr>"

section \<open>Properties\<close>

subsection \<open>Closed forms of the loops\<close>

lemma fold_update_upt:
  "n \<le> length xs \<Longrightarrow>
   fold (\<lambda>i xs. xs[i := f i (xs ! i)]) [0..<n] xs =
     map (\<lambda>i. if i < n then f i (xs ! i) else xs ! i) [0..<length xs]"
proof (induction n)
  case 0
  then show ?case by (simp add: map_nth)
next
  case (Suc n)
  then have n: "n < length xs" by simp
  let ?ys = "map (\<lambda>i. if i < n then f i (xs ! i) else xs ! i) [0..<length xs]"
  have IH: "fold (\<lambda>i xs. xs[i := f i (xs ! i)]) [0..<n] xs = ?ys"
    using Suc.IH n by simp
  have "fold (\<lambda>i xs. xs[i := f i (xs ! i)]) [0..<Suc n] xs = ?ys[n := f n (?ys ! n)]"
    by (simp only: upt_Suc_append [OF le0] fold_append o_apply fold.simps id_apply IH)
  also have "\<dots> = map (\<lambda>i. if i < Suc n then f i (xs ! i) else xs ! i) [0..<length xs]"
    using n by (intro nth_equalityI) (auto simp: nth_list_update)
  finally show ?case .
qed

lemma blank_scripts_eq: "blank_scripts ins = map (\<lambda>x. x\<lparr>script := []\<rparr>) ins"
proof -
  have "blank_scripts ins = map (\<lambda>i. if i < length ins then (ins ! i)\<lparr>script := []\<rparr> else ins ! i) [0..<length ins]"
    unfolding blank_scripts_def setScript_def
    by (rule fold_update_upt) simp
  also have "\<dots> = map (\<lambda>x. x\<lparr>script := []\<rparr>) ins"
    by (intro nth_equalityI) auto
  finally show ?thesis .
qed

lemma clear_sequenceNumbers_eq:
  "clear_sequenceNumbers k ins =
     map (\<lambda>i. if i \<noteq> k then (ins ! i)\<lparr>sequenceNumber := 0\<rparr> else ins ! i) [0..<length ins]"
proof -
  have "(\<lambda>i ins. if i \<noteq> k then ins[i := (ins ! i)\<lparr>sequenceNumber := 0\<rparr>] else ins) =
        (\<lambda>i (ins :: Input list). ins[i := (if i \<noteq> k then (ins ! i)\<lparr>sequenceNumber := 0\<rparr> else ins ! i)])"
    by (auto simp: fun_eq_iff)
  then have "clear_sequenceNumbers k ins =
     fold (\<lambda>i (ins :: Input list). ins[i := (if i \<noteq> k then (ins ! i)\<lparr>sequenceNumber := 0\<rparr> else ins ! i)])
       [0..<length ins] ins"
    unfolding clear_sequenceNumbers_def by simp
  also have "\<dots> = map (\<lambda>i. if i < length ins then (if i \<noteq> k then (ins ! i)\<lparr>sequenceNumber := 0\<rparr> else ins ! i) else ins ! i) [0..<length ins]"
    by (rule fold_update_upt) simp
  also have "\<dots> = map (\<lambda>i. if i \<noteq> k then (ins ! i)\<lparr>sequenceNumber := 0\<rparr> else ins ! i) [0..<length ins]"
    by (intro nth_equalityI) auto
  finally show ?thesis .
qed

lemma null_outputs_eq:
  assumes k: "k < length outs"
  shows "null_outputs k (take (k + 1) outs) = replicate k null_output @ [outs ! k]"
proof -
  have "null_outputs k (take (k + 1) outs) =
        map (\<lambda>i. if i < k then null_output else take (k + 1) outs ! i) [0..<length (take (k + 1) outs)]"
    unfolding null_outputs_def
    by (rule fold_update_upt) (use k in simp)
  also have "\<dots> = replicate k null_output @ [outs ! k]"
  proof (intro nth_equalityI)
    show "length (map (\<lambda>i. if i < k then null_output else take (k + 1) outs ! i)
             [0..<length (take (k + 1) outs)]) = length (replicate k null_output @ [outs ! k])"
      using k by simp
  next
    fix i
    assume "i < length (map (\<lambda>i. if i < k then null_output else take (k + 1) outs ! i)
             [0..<length (take (k + 1) outs)])"
    then have "i < k \<or> i = k" using k by auto
    then show "map (\<lambda>i. if i < k then null_output else take (k + 1) outs ! i)
             [0..<length (take (k + 1) outs)] ! i = (replicate k null_output @ [outs ! k]) ! i"
      using k by (auto simp: nth_append)
  qed
  finally show ?thesis .
qed


lemma substituted_inputs:
  assumes "n < length ins"
  shows "(blank_scripts ins)[n := setScript (blank_scripts ins ! n) s] =
         map (\<lambda>k. if k = n then (ins ! k)\<lparr>script := s\<rparr> else (ins ! k)\<lparr>script := []\<rparr>)
           [0..<length ins]"
  using assms
  by (intro nth_equalityI) (auto simp: blank_scripts_eq setScript_def nth_list_update)

lemma cleared_inputs:
  assumes "n < length ins"
  shows "clear_sequenceNumbers n ((blank_scripts ins)[n := setScript (blank_scripts ins ! n) s]) =
         map (\<lambda>k. if k = n then (ins ! k)\<lparr>script := s\<rparr>
                  else (ins ! k)\<lparr>script := [], sequenceNumber := 0\<rparr>)
           [0..<length ins]"
  unfolding substituted_inputs [OF assms] clear_sequenceNumbers_eq
  by (intro nth_equalityI) auto

lemma legacy_txcopy_closed:
  assumes n: "n < length (inputs tx)"
  shows "legacy_txcopy P tx ty n sub =
     (if ty AND 31 = SIGHASH_SINGLE \<and> length (outputs tx) \<le> n
      then Inr (Return SIGHASH_SINGLE_BUG)
      else Inr (Continue (tx\<lparr>
        inputs :=
          (if ty AND SIGHASH_ANYONECANPAY \<noteq> 0
           then [(inputs tx ! n)\<lparr>script := removeCodeseparators P sub\<rparr>]
           else legacy_inputs (ty AND 31 = SIGHASH_NONE \<or> ty AND 31 = SIGHASH_SINGLE)
                  (removeCodeseparators P sub) n (inputs tx)),
        outputs :=
          (if ty AND 31 = SIGHASH_NONE then []
           else if ty AND 31 = SIGHASH_SINGLE
           then replicate n null_output @ [outputs tx ! n]
           else outputs tx)\<rparr>)))"
proof -
  have ne: "SIGHASH_NONE \<noteq> SIGHASH_SINGLE"
    by (simp add: SIGHASH_NONE_def SIGHASH_SINGLE_def)
  consider (none) "ty AND 31 = SIGHASH_NONE"
    | (single) "ty AND 31 = SIGHASH_SINGLE"
    | (other) "ty AND 31 \<noteq> SIGHASH_NONE" "ty AND 31 \<noteq> SIGHASH_SINGLE"
    by blast
  then show ?thesis
  proof cases
    case none
    then show ?thesis
      using n ne
      by (simp add: legacy_txcopy_def shallowCopy_def Let_def legacy_outputs_def
          blank_scripts_eq [THEN arg_cong, of length] cleared_inputs legacy_inputs_def)
  next
    case single
    then show ?thesis
      using n ne
      by (simp add: legacy_txcopy_def shallowCopy_def Let_def legacy_outputs_def
          blank_scripts_eq [THEN arg_cong, of length] cleared_inputs legacy_inputs_def
          null_outputs_eq [simplified] not_le)
  next
    case other
    then show ?thesis
      using n
      by (simp add: legacy_txcopy_def shallowCopy_def Let_def legacy_outputs_def
          blank_scripts_eq [THEN arg_cong, of length] substituted_inputs legacy_inputs_def)
  qed
qed


lemma fold_write_concat:
  "concat (fold (\<lambda>x w. w @ g x) xs w0) = concat w0 @ concat (map (\<lambda>x. concat (g x)) xs)"
  by (induction xs arbitrary: w0) simp_all

lemma GetPrevoutHash_eq:
  "GetPrevoutHash P tx =
     blake2b P (ascii ''ZcashPrevoutHash'')
       (concat (map (\<lambda>i. rev (prevTxId i) @ le32 (outputIndex i)) (inputs tx)))"
  by (simp add: GetPrevoutHash_def getBlake2bHash_def toBuffer_def writeUInt32LE_def
      writeReverse_def writeBuf_def fold_write_concat)

lemma GetSequenceHash_eq:
  "GetSequenceHash P tx =
     blake2b P (ascii ''ZcashSequencHash'')
       (concat (map (\<lambda>i. le32 (sequenceNumber i)) (inputs tx)))"
  by (simp add: GetSequenceHash_def getBlake2bHash_def toBuffer_def writeUInt32LE_def
      writeBuf_def fold_write_concat)

lemma GetOutputsHash_all:
  "GetOutputsHash P tx None =
     Inr (blake2b P (ascii ''ZcashOutputsHash'') (concat (map (output_toBuffer P) (outputs tx))))"
  by (simp add: GetOutputsHash_def getBlake2bHash_def toBuffer_def writeBuf_def fold_write_concat)

lemma GetOutputsHash_one:
  "n < length (outputs tx) \<Longrightarrow>
   GetOutputsHash P tx (Some n) =
     Inr (blake2b P (ascii ''ZcashOutputsHash'') (output_toBuffer P (outputs tx ! n)))"
  by (simp add: GetOutputsHash_def getBlake2bHash_def toBuffer_def writeBuf_def)

lemma hashOutputs_closed:
  "hashOutputs P tx ty n =
     Inr (if ty AND 31 = SIGHASH_SINGLE
          then (if n < length (outputs tx)
                then blake2b P (ascii ''ZcashOutputsHash'') (output_toBuffer P (outputs tx ! n))
                else ZERO)
          else if ty AND 31 = SIGHASH_NONE then ZERO
          else blake2b P (ascii ''ZcashOutputsHash'')
                 (concat (map (output_toBuffer P) (outputs tx))))"
  by (simp add: hashOutputs_def GetOutputsHash_all GetOutputsHash_one)

lemma personalization_eq:
  "personalization tx = ascii ''ZcashSigHash'' @ le32 (consensusBranchId tx)"
  by (simp add: personalization_def buffer_write_at_def ascii_def le32_def Let_def)

lemma sighashSapling_closed:
  assumes "n < length (inputs tx)" and "output_spent (inputs tx ! n) = Some spent"
    and "hashOutputs P tx ty n = Inr ho"
    and "0 \<le> valueBalance tx" and "valueBalance tx < 2 ^ 53"
    and "uint (satoshis spent) < 2 ^ 53"
  shows "sighashSapling P tx ty n sub =
     Inr (spec_sapling_digest P (consensusBranchId tx)
       (spec_sapling_preimage tx ty n sub (hashPrevouts P tx ty) (hashSequence P tx ty) ho spent))"
  using assms
  by (simp add: sighashSapling_def Let_def new_BN_def spec_sapling_digest_def
      spec_sapling_preimage_def
      personalization_eq getBlake2bHash_def readReverse_def toBuffer_def writeBuf_def
      writeReverse_def writeUInt32LE_def writeInt32LE_def writeUInt64LEBN_def
      writeVarintNum_def ZERO_def)

lemma sighashSapling_returns:
  assumes "\<bar>valueBalance tx\<bar> < 2 ^ 53" and "n < length (inputs tx)"
    and "output_spent (inputs tx ! n) = Some spent" and "uint (satoshis spent) < 2 ^ 53"
  shows "\<exists>preimage. sighashSapling P tx ty n sub =
           Inr (rev (blake2b P (personalization tx) preimage))"
proof -
  obtain ho where ho: "hashOutputs P tx ty n = Inr ho"
    using hashOutputs_closed by blast
  show ?thesis
    using assms
    by (auto simp: sighashSapling_def Let_def new_BN_def ho getBlake2bHash_def readReverse_def)
qed

subsection \<open>The sub-hashes of the Sapling-era builder\<close>

text \<open>
  Claim C4. In the Sapling-era builder the prevouts sub-hash is the personalized hash of
  every input's reversed previous transaction id and little-endian output index, in the
  original order, unless ANYONECANPAY is set, and then it is 32 zero bytes. The sequence
  sub-hash is the personalized hash of every input's little-endian sequence number, in
  the original order, unless ANYONECANPAY is set or the low selector is SINGLE or NONE,
  and then it is 32 zero bytes. Under SINGLE|ANYONECANPAY both are 32 zero bytes.
\<close>

theorem sapling_prevouts_sequence_hash:
  "hashPrevouts P tx ty =
     (if ty AND SIGHASH_ANYONECANPAY \<noteq> 0 then replicate 32 0
      else blake2b P (ascii ''ZcashPrevoutHash'')
             (concat (map (\<lambda>i. rev (prevTxId i) @ le32 (outputIndex i)) (inputs tx)))) \<and>
   hashSequence P tx ty =
     (if ty AND SIGHASH_ANYONECANPAY \<noteq> 0 \<or> ty AND 31 = SIGHASH_SINGLE \<or> ty AND 31 = SIGHASH_NONE
      then replicate 32 0
      else blake2b P (ascii ''ZcashSequencHash'')
             (concat (map (\<lambda>i. le32 (sequenceNumber i)) (inputs tx)))) \<and>
   hashPrevouts P tx (SIGHASH_SINGLE OR SIGHASH_ANYONECANPAY) = replicate 32 0 \<and>
   hashSequence P tx (SIGHASH_SINGLE OR SIGHASH_ANYONECANPAY) = replicate 32 0"
  by (simp add: hashPrevouts_def hashSequence_def GetPrevoutHash_eq GetSequenceHash_eq ZERO_def
      SIGHASH_SINGLE_def SIGHASH_ANYONECANPAY_def)

theorem sapling_prevouts_sequence_hash_witness:
  "hashPrevouts sample_prims (sample_tx 4 None) 1 =
     ascii ''ZcashPrevoutHash'' @
       (replicate 31 0 @ [1]) @ [0, 0, 0, 0] @ (replicate 31 0 @ [9]) @ [0, 0, 0, 0] \<and>
   hashSequence sample_prims (sample_tx 4 None) 1 =
     ascii ''ZcashSequencHash'' @ [7, 0, 0, 0, 8, 0, 0, 0] \<and>
   hashSequence sample_prims (sample_tx 4 None) 3 = replicate 32 0 \<and>
   hashPrevouts sample_prims (sample_tx 4 None) 0x83 = replicate 32 0"
  using sapling_prevouts_sequence_hash [of sample_prims "sample_tx 4 None" 1]
    sapling_prevouts_sequence_hash [of sample_prims "sample_tx 4 None" 3]
    sapling_prevouts_sequence_hash [of sample_prims "sample_tx 4 None" "0x83"]
  by (simp add: sample_prims_def sample_tx_def sample_input_def le32_def
      SIGHASH_ANYONECANPAY_def SIGHASH_SINGLE_def SIGHASH_NONE_def)

subsection \<open>The digest is produced\<close>

lemma sighash_sapling_closed:
  assumes "version tx \<ge> 4" and "n < length (inputs tx)"
    and "output_spent (inputs tx ! n) = Some spent"
    and "0 \<le> valueBalance tx" and "valueBalance tx < 2 ^ 53"
    and "uint (satoshis spent) < 2 ^ 53"
  shows "\<exists>ho. hashOutputs P tx ty n = Inr ho \<and>
     sighash P tx ty n sub =
       Inr (spec_sapling_digest P (consensusBranchId tx)
         (spec_sapling_preimage tx ty n sub (hashPrevouts P tx ty) (hashSequence P tx ty) ho spent))"
proof -
  obtain ho where ho: "hashOutputs P tx ty n = Inr ho"
    using hashOutputs_closed by blast
  show ?thesis
    using assms(1) ho sighashSapling_closed [OF assms(2,3) ho assms(4,5,6)]
    by (simp add: sighash_def)
qed

lemma sighash_total:
  assumes "well_formed tx n"
  shows "\<exists>hashbuf. sighash P tx ty n sub = Inr hashbuf \<and>
           (digests32 P \<longrightarrow> length hashbuf = 32)"
proof (cases "version tx \<ge> 4")
  case True
  with assms obtain spent where n: "n < length (inputs tx)"
    and b: "\<bar>valueBalance tx\<bar> < 2 ^ 53"
    and s: "output_spent (inputs tx ! n) = Some spent" "uint (satoshis spent) < 2 ^ 53"
    by (auto simp: well_formed_def)
  from sighashSapling_returns [OF b n s, of P ty sub] show ?thesis
    using True by (auto simp: sighash_def digests32_def)
next
  case False
  from assms have n: "n < length (inputs tx)" by (simp add: well_formed_def)
  have "length SIGHASH_SINGLE_BUG = 32"
    by (simp add: SIGHASH_SINGLE_BUG_def)
  then show ?thesis
    using False
    by (simp add: sighash_def legacy_txcopy_closed [OF n] Let_def digests32_def
        readReverse_def)
qed

lemma sighash_never_InvalidArgument: "sighash P tx ty n sub \<noteq> Inl InvalidArgument"
proof (cases "version tx \<ge> 4")
  case True
  then show ?thesis
    by (auto simp: sighash_def sighashSapling_def Let_def hashOutputs_closed new_BN_def
        split: option.splits if_splits)
next
  case False
  show ?thesis
  proof (cases "n < length (inputs tx)")
    case True
    show ?thesis
      using False by (simp add: sighash_def legacy_txcopy_closed [OF True] Let_def)
  next
    case oor: False
    show ?thesis
      using False oor
      by (simp add: sighash_def legacy_txcopy_def blank_scripts_eq shallowCopy_def Let_def)
  qed
qed

text \<open>
  Claim C5. In the Sapling-era builder the outputs sub-hash is, for the selector SINGLE
  with \<open>inputNumber\<close> below the number of outputs, the personalized hash of the
  output at \<open>inputNumber\<close> alone; for SINGLE out of range and for NONE, 32 zero bytes;
  for every other selector, the personalized hash of all outputs serialized in order.
\<close>

theorem sapling_outputs_hash:
  "hashOutputs P tx ty n =
     Inr (if ty AND 31 = SIGHASH_SINGLE
          then (if n < length (outputs tx)
                then blake2b P (ascii ''ZcashOutputsHash'') (output_toBuffer P (outputs tx ! n))
                else replicate 32 0)
          else if ty AND 31 = SIGHASH_NONE then replicate 32 0
          else blake2b P (ascii ''ZcashOutputsHash'')
                 (concat (map (output_toBuffer P) (outputs tx))))"
  by (simp add: hashOutputs_closed ZERO_def)

theorem sapling_outputs_hash_witness:
  "hashOutputs sample_prims (sample_tx 4 None) 3 0 =
     Inr (ascii ''ZcashOutputsHash'' @ [5, 0, 0, 0, 0, 0, 0, 0, 1, 0x53]) \<and>
   hashOutputs sample_prims (sample_tx 4 None) 3 1 = Inr (replicate 32 0) \<and>
   hashOutputs sample_prims (sample_tx 4 None) 2 0 = Inr (replicate 32 0) \<and>
   hashOutputs sample_prims (sample_tx 4 None) 0 1 =
     Inr (ascii ''ZcashOutputsHash'' @ [5, 0, 0, 0, 0, 0, 0, 0, 1, 0x53])"
  using sapling_outputs_hash [of sample_prims "sample_tx 4 None" 3 0]
    sapling_outputs_hash [of sample_prims "sample_tx 4 None" 3 1]
    sapling_outputs_hash [of sample_prims "sample_tx 4 None" 2 0]
    sapling_outputs_hash [of sample_prims "sample_tx 4 None" 0 1]
  by (simp add: sample_prims_def sample_tx_def sample_output_bytes_def le64_def varint_def
      SIGHASH_SINGLE_def SIGHASH_NONE_def)

subsection \<open>The legacy builder\<close>

text \<open>
  Claim C2. For a transaction of version below 4, a signature type whose low selector is
  SINGLE and an \<open>inputNumber\<close> that indexes an input but no output, the legacy
  builder returns at once, without a transaction copy to serialize, and \<open>sighash\<close>
  returns the 32 bytes 00..0001, whatever the other fields and the ANYONECANPAY bit are.
\<close>

theorem legacy_single_bug:
  assumes "version tx < 4" and "ty AND 31 = SIGHASH_SINGLE"
    and "length (outputs tx) \<le> n" and "n < length (inputs tx)"
  shows "legacy_txcopy P tx ty n sub = Inr (Return SIGHASH_SINGLE_BUG) \<and>
         sighash P tx ty n sub = Inr (replicate 31 0 @ [1])"
proof -
  have "legacy_txcopy P tx ty n sub = Inr (Return SIGHASH_SINGLE_BUG)"
    using assms by (simp add: legacy_txcopy_closed)
  moreover have "SIGHASH_SINGLE_BUG = replicate 31 0 @ [1]"
    by (simp add: SIGHASH_SINGLE_BUG_def eval_nat_numeral)
  ultimately show ?thesis
    using assms(1) by (simp add: sighash_def)
qed

theorem legacy_single_bug_witness:
  "sighash sample_prims (sample_tx 1 None) 3 1 [0x51] = Inr (replicate 31 0 @ [1]) \<and>
   sighash sample_prims (sample_tx 3 (Some 5)) 0x83 1 [] = Inr (replicate 31 0 @ [1])"
proof -
  have a: "version (sample_tx 1 None) < 4" "version (sample_tx 3 (Some 5)) < 4"
    by (simp_all add: sample_tx_def)
  have b: "(3 :: u32) AND 31 = SIGHASH_SINGLE" "(0x83 :: u32) AND 31 = SIGHASH_SINGLE"
    by (simp_all add: SIGHASH_SINGLE_def)
  have c: "length (outputs (sample_tx 1 None)) \<le> 1" "length (outputs (sample_tx 3 (Some 5))) \<le> 1"
    by (simp_all add: sample_tx_def)
  have d: "1 < length (inputs (sample_tx 1 None))" "1 < length (inputs (sample_tx 3 (Some 5)))"
    by (simp_all add: sample_tx_def)
  show ?thesis
    using legacy_single_bug [OF a(1) b(1) c(1) d(1), of sample_prims "[0x51]"]
      legacy_single_bug [OF a(2) b(2) c(2) d(2), of sample_prims "[]"]
    by simp
qed

subsection \<open>The Sapling-era preimage\<close>

text \<open>
  Claim C3, amended. For a transaction of version 4 or more, an \<open>inputNumber\<close> that
  indexes an input and the output that input spends, a value balance from 0 to below
  \<open>2 ^ 53\<close> and a spent value below \<open>2 ^ 53\<close>, \<open>sighash\<close> builds the preimage in
  the field order of the specification's layout, hashes it with the personalized hash
  whose 16-byte personalization is the ASCII prefix ZcashSigHash followed by the
  little-endian consensus branch id, and returns the 32 resulting bytes reversed (32 as
  the hash returns the 32 bytes it is called for). The branch id is the transaction's
  override when it is present and not zero, and the default 0x76b809bb otherwise.
\<close>

theorem sapling_preimage_layout:
  assumes "version tx \<ge> 4" and "n < length (inputs tx)"
    and "output_spent (inputs tx ! n) = Some spent"
    and "0 \<le> valueBalance tx" and "valueBalance tx < 2 ^ 53"
    and "uint (satoshis spent) < 2 ^ 53"
  shows "\<exists>ho digest. hashOutputs P tx ty n = Inr ho \<and>
     sighash P tx ty n sub = Inr (rev digest) \<and>
     digest =
       blake2b P
         (ascii ''ZcashSigHash'' @
          le32 (case branchId tx of
                  None \<Rightarrow> 0x76b809bb
                | Some b \<Rightarrow> if b = 0 then 0x76b809bb else b))
         (spec_sapling_preimage tx ty n sub
            (hashPrevouts P tx ty) (hashSequence P tx ty) ho spent) \<and>
     rev digest =
       spec_sapling_digest P
         (case branchId tx of
            None \<Rightarrow> 0x76b809bb
          | Some b \<Rightarrow> if b = 0 then 0x76b809bb else b)
         (spec_sapling_preimage tx ty n sub
            (hashPrevouts P tx ty) (hashSequence P tx ty) ho spent) \<and>
     length (ascii ''ZcashSigHash'' @ le32 (consensusBranchId tx)) = 16 \<and>
     ((\<forall>p d. length (blake2b P p d) = 32) \<longrightarrow> length (rev digest) = 32)"
proof -
  have "consensusBranchId tx =
      (case branchId tx of None \<Rightarrow> 0x76b809bb | Some b \<Rightarrow> if b = 0 then 0x76b809bb else b)"
    by (simp add: consensusBranchId_def DEFAULT_BRANCH_ID_def split: option.splits)
  then show ?thesis
    using sighash_sapling_closed [OF assms, of P ty sub]
    by (auto simp: ascii_def le32_def spec_sapling_digest_def)
qed

theorem sapling_preimage_layout_witness:
  "sighash sample_prims (sample_tx 4 (Some 0x2bb40e60)) 1 0 [0x51] =
     Inr (rev (ascii ''ZcashSigHash'' @ [0x60, 0x0e, 0xb4, 0x2b] @
       [4, 0, 0, 0x80] @ [0x85, 0x20, 0x2f, 0x89] @
       (ascii ''ZcashPrevoutHash'' @
          (replicate 31 0 @ [1]) @ [0, 0, 0, 0] @ (replicate 31 0 @ [9]) @ [0, 0, 0, 0]) @
       (ascii ''ZcashSequencHash'' @ [7, 0, 0, 0, 8, 0, 0, 0]) @
       (ascii ''ZcashOutputsHash'' @ [5, 0, 0, 0, 0, 0, 0, 0, 1, 0x53]) @
       replicate 32 0 @ replicate 32 0 @ replicate 32 0 @
       [0, 0, 0, 0] @ [0, 0, 0, 0] @ [0, 0, 0, 0, 0, 0, 0, 0] @ [1, 0, 0, 0] @
       (replicate 31 0 @ [1]) @ [0, 0, 0, 0] @ [1, 0x51] @
       [0xe8, 3, 0, 0, 0, 0, 0, 0] @ [7, 0, 0, 0])) \<and>
   (\<exists>digest. sighash sample_prims32 (sample_tx 4 (Some 0x2bb40e60)) 1 0 [0x51] = Inr digest \<and>
      length digest = 32)"
proof -
  have a: "version (sample_tx 4 (Some 0x2bb40e60)) \<ge> 4"
    and b: "0 < length (inputs (sample_tx 4 (Some 0x2bb40e60)))"
    and c: "output_spent (inputs (sample_tx 4 (Some 0x2bb40e60)) ! 0) =
              Some \<lparr>satoshis = 1000, lockingScript = [0x52]\<rparr>"
    and d: "0 \<le> valueBalance (sample_tx 4 (Some 0x2bb40e60))"
    and e: "valueBalance (sample_tx 4 (Some 0x2bb40e60)) < 2 ^ 53"
    and f: "uint (satoshis \<lparr>satoshis = 1000, lockingScript = [0x52]\<rparr>) < 2 ^ 53"
    by (simp_all add: sample_tx_def sample_input_def)
  have layout: "sighash sample_prims (sample_tx 4 (Some 0x2bb40e60)) 1 0 [0x51] =
     Inr (rev (ascii ''ZcashSigHash'' @ [0x60, 0x0e, 0xb4, 0x2b] @
       [4, 0, 0, 0x80] @ [0x85, 0x20, 0x2f, 0x89] @
       (ascii ''ZcashPrevoutHash'' @
          (replicate 31 0 @ [1]) @ [0, 0, 0, 0] @ (replicate 31 0 @ [9]) @ [0, 0, 0, 0]) @
       (ascii ''ZcashSequencHash'' @ [7, 0, 0, 0, 8, 0, 0, 0]) @
       (ascii ''ZcashOutputsHash'' @ [5, 0, 0, 0, 0, 0, 0, 0, 1, 0x53]) @
       replicate 32 0 @ replicate 32 0 @ replicate 32 0 @
       [0, 0, 0, 0] @ [0, 0, 0, 0] @ [0, 0, 0, 0, 0, 0, 0, 0] @ [1, 0, 0, 0] @
       (replicate 31 0 @ [1]) @ [0, 0, 0, 0] @ [1, 0x51] @
       [0xe8, 3, 0, 0, 0, 0, 0, 0] @ [7, 0, 0, 0]))"
    using sapling_preimage_layout [OF a b c d e f, of sample_prims 1 "[0x51]"]
    by (simp add: spec_sapling_digest_def spec_sapling_preimage_def hashOutputs_closed
        hashPrevouts_def hashSequence_def GetPrevoutHash_eq GetSequenceHash_eq
        sample_prims_def sample_tx_def sample_input_def sample_output_bytes_def
        le32_def le64_def varint_def
        SIGHASH_ANYONECANPAY_def SIGHASH_SINGLE_def SIGHASH_NONE_def)
  have "\<forall>p d. length (blake2b sample_prims32 p d) = 32"
    by (auto simp: sample_prims32_def min_def)
  with sapling_preimage_layout [OF a b c d e f, of sample_prims32 1 "[0x51]"]
  have "\<exists>digest. sighash sample_prims32 (sample_tx 4 (Some 0x2bb40e60)) 1 0 [0x51] = Inr digest \<and>
      length digest = 32"
    by blast
  with layout show ?thesis by blast
qed

text \<open>
  As stated, with the override used whenever it is present and for every transaction,
  the claim fails twice. For a transaction whose override is 0, line 164 tests the
  override for truth and falls back to the default; the sample hash returns the
  personalization followed by the data, so the two digests differ in their
  personalization. For a value balance of \<open>2 ^ 53\<close>, line 141 throws and no digest is
  returned.
\<close>

theorem sapling_branch_override_counterexample:
  "sighash sample_prims (sample_tx 4 (Some 0)) 1 0 [0x51] \<noteq>
     Inr (spec_sapling_digest sample_prims
       (case branchId (sample_tx 4 (Some 0)) of None \<Rightarrow> 0x76b809bb | Some b \<Rightarrow> b)
       (spec_sapling_preimage (sample_tx 4 (Some 0)) 1 0 [0x51]
          (hashPrevouts sample_prims (sample_tx 4 (Some 0)) 1)
          (hashSequence sample_prims (sample_tx 4 (Some 0)) 1)
          (projr (hashOutputs sample_prims (sample_tx 4 (Some 0)) 1 0))
          \<lparr>satoshis = 1000, lockingScript = [0x52]\<rparr>)) \<and>
   sighash sample_prims ((sample_tx 4 None)\<lparr>valueBalance := 2 ^ 53\<rparr>) 1 0 [0x51] =
     Inl AssertionFailed"
proof -
  have a: "version (sample_tx 4 (Some 0)) \<ge> 4"
    and b: "0 < length (inputs (sample_tx 4 (Some 0)))"
    and c: "output_spent (inputs (sample_tx 4 (Some 0)) ! 0) =
              Some \<lparr>satoshis = 1000, lockingScript = [0x52]\<rparr>"
    and r: "0 \<le> valueBalance (sample_tx 4 (Some 0))"
      "valueBalance (sample_tx 4 (Some 0)) < 2 ^ 53"
      "uint (satoshis \<lparr>satoshis = 1000, lockingScript = [0x52]\<rparr>) < 2 ^ 53"
    by (simp_all add: sample_tx_def sample_input_def)
  have d: "consensusBranchId (sample_tx 4 (Some 0)) = 0x76b809bb"
    and e: "branchId (sample_tx 4 (Some 0)) = Some 0"
    by (simp_all add: consensusBranchId_def DEFAULT_BRANCH_ID_def sample_tx_def)
  have f: "le32 0x76b809bb \<noteq> le32 0"
    by (simp add: le32_def)
  have first: "sighash sample_prims (sample_tx 4 (Some 0)) 1 0 [0x51] \<noteq>
     Inr (spec_sapling_digest sample_prims
       (case branchId (sample_tx 4 (Some 0)) of None \<Rightarrow> 0x76b809bb | Some b \<Rightarrow> b)
       (spec_sapling_preimage (sample_tx 4 (Some 0)) 1 0 [0x51]
          (hashPrevouts sample_prims (sample_tx 4 (Some 0)) 1)
          (hashSequence sample_prims (sample_tx 4 (Some 0)) 1)
          (projr (hashOutputs sample_prims (sample_tx 4 (Some 0)) 1 0))
          \<lparr>satoshis = 1000, lockingScript = [0x52]\<rparr>))"
    using sighash_sapling_closed [OF a b c r, of sample_prims 1 "[0x51]"] f
    by (auto simp: d e spec_sapling_digest_def sample_prims_def)
  have second: "sighash sample_prims ((sample_tx 4 None)\<lparr>valueBalance := 2 ^ 53\<rparr>) 1 0 [0x51] =
     Inl AssertionFailed"
    by (simp add: sighash_def sighashSapling_def Let_def new_BN_def hashOutputs_closed
        sample_tx_def)
  from first second show ?thesis by blast
qed

subsection \<open>The overrides of the legacy builder\<close>

lemma spec_legacy_closed:
  assumes n: "n < length (inputs tx)"
  shows "spec_legacy P tx ty n sub =
     (if ty AND 31 = SIGHASH_SINGLE \<and> length (outputs tx) \<le> n
      then Return SIGHASH_SINGLE_BUG
      else Continue (tx\<lparr>
        inputs :=
          (if ty AND SIGHASH_ANYONECANPAY \<noteq> 0
           then [(inputs tx ! n)\<lparr>script := removeCodeseparators P sub\<rparr>]
           else legacy_inputs (ty AND 31 = SIGHASH_NONE \<or> ty AND 31 = SIGHASH_SINGLE)
                  (removeCodeseparators P sub) n (inputs tx)),
        outputs :=
          (if ty AND 31 = SIGHASH_NONE then []
           else if ty AND 31 = SIGHASH_SINGLE
           then replicate n null_output @ [outputs tx ! n]
           else outputs tx)\<rparr>))"
proof -
  let ?s = "removeCodeseparators P sub"
  have bug: "replicate 31 0 @ [1] = SIGHASH_SINGLE_BUG"
    by (simp add: SIGHASH_SINGLE_BUG_def eval_nat_numeral)
  have z: "spec_zero_sequences n (spec_substitute_scripts ?s n (inputs tx)) =
           legacy_inputs True ?s n (inputs tx)"
    unfolding spec_zero_sequences_def spec_substitute_scripts_def legacy_inputs_def
    by (intro nth_equalityI) auto
  have nz: "spec_substitute_scripts ?s n (inputs tx) = legacy_inputs False ?s n (inputs tx)"
    unfolding spec_substitute_scripts_def legacy_inputs_def
    by (intro nth_equalityI) auto
  have at_n: "legacy_inputs b ?s n (inputs tx) ! n = (inputs tx ! n)\<lparr>script := ?s\<rparr>" for b
    using n by (simp add: legacy_inputs_def)
  have outs: "n < length (outputs tx) \<Longrightarrow>
      spec_single_outputs n (outputs tx) = replicate n null_output @ [outputs tx ! n]"
    unfolding spec_single_outputs_def null_output_def BITS_64_ON_def
    by (intro nth_equalityI) (auto simp: nth_append less_Suc_eq)
  consider (none) "ty AND 31 = SIGHASH_NONE"
    | (single) "ty AND 31 = SIGHASH_SINGLE"
    | (other) "ty AND 31 \<noteq> SIGHASH_NONE" "ty AND 31 \<noteq> SIGHASH_SINGLE"
    by blast
  then show ?thesis
  proof cases
    case none
    then show ?thesis
      by (simp add: spec_legacy_def Let_def z at_n SIGHASH_NONE_def SIGHASH_SINGLE_def
          SIGHASH_ANYONECANPAY_def)
  next
    case single
    then show ?thesis
      using outs
      by (simp add: spec_legacy_def Let_def z at_n bug SIGHASH_NONE_def SIGHASH_SINGLE_def
          SIGHASH_ANYONECANPAY_def not_le)
  next
    case other
    then show ?thesis
      by (simp add: spec_legacy_def Let_def nz at_n SIGHASH_NONE_def SIGHASH_SINGLE_def
          SIGHASH_ANYONECANPAY_def)
  qed
qed

text \<open>
  Claim C6. In the legacy builder, with \<open>inputNumber\<close> indexing an input, the copy is
  the one the specification's steps give in their stated order. In particular, when the
  low selector is NONE or SINGLE the sequence number of every input but \<open>inputNumber\<close>
  is zero; when it is SINGLE with \<open>inputNumber\<close> below the number of outputs, the
  outputs are cut to \<open>inputNumber + 1\<close> and each one before \<open>inputNumber\<close> is the null
  output with value 0xFFFFFFFFFFFFFFFF and the empty script; and the ANYONECANPAY
  collapse to the input \<open>inputNumber\<close> comes last.
\<close>

theorem legacy_overrides:
  assumes n: "n < length (inputs tx)"
  shows "legacy_txcopy P tx ty n sub = Inr (spec_legacy P tx ty n sub) \<and>
    (\<forall>txcopy. legacy_txcopy P tx ty n sub = Inr (Continue txcopy) \<longrightarrow>
       ((ty AND 31 = SIGHASH_NONE \<or> ty AND 31 = SIGHASH_SINGLE) \<and>
          ty AND SIGHASH_ANYONECANPAY = 0 \<longrightarrow>
            length (inputs txcopy) = length (inputs tx) \<and>
            (\<forall>k < length (inputs tx). k \<noteq> n \<longrightarrow> sequenceNumber (inputs txcopy ! k) = 0) \<and>
            sequenceNumber (inputs txcopy ! n) = sequenceNumber (inputs tx ! n)) \<and>
       (ty AND 31 = SIGHASH_SINGLE \<longrightarrow>
            n < length (outputs tx) \<and>
            outputs txcopy =
              replicate n \<lparr>satoshis = 0xFFFFFFFFFFFFFFFF, lockingScript = []\<rparr> @ [outputs tx ! n]) \<and>
       (ty AND SIGHASH_ANYONECANPAY \<noteq> 0 \<longrightarrow>
            inputs txcopy = [(inputs tx ! n)\<lparr>script := removeCodeseparators P sub\<rparr>]))"
proof -
  have ne: "SIGHASH_NONE \<noteq> SIGHASH_SINGLE"
    by (simp add: SIGHASH_NONE_def SIGHASH_SINGLE_def)
  have "legacy_txcopy P tx ty n sub = Inr (spec_legacy P tx ty n sub)"
    by (simp add: legacy_txcopy_closed [OF n] spec_legacy_closed [OF n])
  moreover have "\<forall>txcopy. legacy_txcopy P tx ty n sub = Inr (Continue txcopy) \<longrightarrow>
       ((ty AND 31 = SIGHASH_NONE \<or> ty AND 31 = SIGHASH_SINGLE) \<and>
          ty AND SIGHASH_ANYONECANPAY = 0 \<longrightarrow>
            length (inputs txcopy) = length (inputs tx) \<and>
            (\<forall>k < length (inputs tx). k \<noteq> n \<longrightarrow> sequenceNumber (inputs txcopy ! k) = 0) \<and>
            sequenceNumber (inputs txcopy ! n) = sequenceNumber (inputs tx ! n)) \<and>
       (ty AND 31 = SIGHASH_SINGLE \<longrightarrow>
            n < length (outputs tx) \<and>
            outputs txcopy =
              replicate n \<lparr>satoshis = 0xFFFFFFFFFFFFFFFF, lockingScript = []\<rparr> @ [outputs tx ! n]) \<and>
       (ty AND SIGHASH_ANYONECANPAY \<noteq> 0 \<longrightarrow>
            inputs txcopy = [(inputs tx ! n)\<lparr>script := removeCodeseparators P sub\<rparr>])"
    using n ne
    by (auto simp: legacy_txcopy_closed [OF n] legacy_inputs_def null_output_def BITS_64_ON_def
        split: if_splits)
  ultimately show ?thesis by blast
qed

theorem legacy_overrides_witness:
  "legacy_txcopy sample_prims sample_tx3 3 1 [0x51, 0xab, 0x52] =
     Inr (Continue (sample_tx3\<lparr>
       inputs := [(sample_input 1 0)\<lparr>script := []\<rparr>,
                  (sample_input 9 8)\<lparr>script := [0x51, 0x52]\<rparr>,
                  (sample_input 4 0)\<lparr>script := []\<rparr>],
       outputs := [\<lparr>satoshis = 0xFFFFFFFFFFFFFFFF, lockingScript = []\<rparr>,
                   \<lparr>satoshis = 6, lockingScript = [0x54]\<rparr>]\<rparr>)) \<and>
   legacy_txcopy sample_prims sample_tx3 0x82 1 [0x51, 0xab, 0x52] =
     Inr (Continue (sample_tx3\<lparr>
       inputs := [(sample_input 9 8)\<lparr>script := [0x51, 0x52]\<rparr>],
       outputs := []\<rparr>))"
proof -
  have n: "1 < length (inputs sample_tx3)"
    by (simp add: sample_tx3_def)
  have u: "[0..<3] = [0, 1, 2]" "[0..<1 + 1] = [0, 1]"
    by (simp_all add: upt_rec)
  show ?thesis
    using legacy_overrides [OF n, of sample_prims 3 "[0x51, 0xab, 0x52]"]
      legacy_overrides [OF n, of sample_prims "0x82" "[0x51, 0xab, 0x52]"]
    by (simp add: spec_legacy_def spec_substitute_scripts_def spec_zero_sequences_def
        spec_single_outputs_def Let_def sample_tx3_def sample_input_def sample_prims_def u)
qed

text \<open>
  Claim C7. For a transaction of version below 4 and a signature type with ANYONECANPAY
  set, the digest depends on the input list only through the input \<open>inputNumber\<close>:
  any other input list with the same input at \<open>inputNumber\<close> gives the same digest.
  In particular, changing the script or the sequence number of another input leaves the
  digest unchanged.
\<close>

theorem legacy_anyonecanpay_other_inputs:
  assumes "version tx < 4" and "ty AND SIGHASH_ANYONECANPAY \<noteq> 0"
    and "n < length (inputs tx)"
  shows "(\<forall>ins'. n < length ins' \<and> ins' ! n = inputs tx ! n \<longrightarrow>
            sighash P (tx\<lparr>inputs := ins'\<rparr>) ty n sub = sighash P tx ty n sub) \<and>
         (\<forall>j s q. j \<noteq> n \<longrightarrow>
            sighash P
              (tx\<lparr>inputs := (inputs tx)[j := (inputs tx ! j)\<lparr>script := s, sequenceNumber := q\<rparr>]\<rparr>)
              ty n sub =
            sighash P tx ty n sub)"
proof -
  have general: "sighash P (tx\<lparr>inputs := ins'\<rparr>) ty n sub = sighash P tx ty n sub"
    if "n < length ins'" and "ins' ! n = inputs tx ! n" for ins'
  proof -
    have n': "n < length (inputs (tx\<lparr>inputs := ins'\<rparr>))"
      using that by simp
    have "legacy_txcopy P (tx\<lparr>inputs := ins'\<rparr>) ty n sub = legacy_txcopy P tx ty n sub"
      using assms that
      by (simp add: legacy_txcopy_closed [OF n'] legacy_txcopy_closed [OF assms(3)])
    then show ?thesis
      using assms(1) by (simp add: sighash_def)
  qed
  have "sighash P
          (tx\<lparr>inputs := (inputs tx)[j := (inputs tx ! j)\<lparr>script := s, sequenceNumber := q\<rparr>]\<rparr>)
          ty n sub =
        sighash P tx ty n sub" if "j \<noteq> n" for j s q
    using that assms(3) by (intro general) simp_all
  with general show ?thesis by blast
qed

theorem legacy_anyonecanpay_other_inputs_witness:
  "sighash sample_prims
     (sample_tx3\<lparr>inputs := (inputs sample_tx3)
        [2 := (inputs sample_tx3 ! 2)\<lparr>script := [0x99], sequenceNumber := 0x1234\<rparr>]\<rparr>)
     0x81 1 [0x51] =
   sighash sample_prims sample_tx3 0x81 1 [0x51]"
proof -
  have "version sample_tx3 < 4" and "(0x81 :: u32) AND SIGHASH_ANYONECANPAY \<noteq> 0"
    and "1 < length (inputs sample_tx3)"
    by (simp_all add: sample_tx3_def SIGHASH_ANYONECANPAY_def)
  from legacy_anyonecanpay_other_inputs [OF this, of sample_prims "[0x51]"]
  have "\<forall>j s q. j \<noteq> 1 \<longrightarrow>
            sighash sample_prims
              (sample_tx3\<lparr>inputs := (inputs sample_tx3)
                 [j := (inputs sample_tx3 ! j)\<lparr>script := s, sequenceNumber := q\<rparr>]\<rparr>)
              0x81 1 [0x51] =
            sighash sample_prims sample_tx3 0x81 1 [0x51]"
    by blast
  then show ?thesis by simp
qed

lemma all_with_anyonecanpay:
  "(SIGHASH_ALL OR (ty AND SIGHASH_ANYONECANPAY)) AND 31 = SIGHASH_ALL"
  "(SIGHASH_ALL OR (ty AND SIGHASH_ANYONECANPAY)) AND SIGHASH_ANYONECANPAY =
     ty AND SIGHASH_ANYONECANPAY"
proof -
  have a: "(0x80 :: u32) AND 31 = 0" "(1 :: u32) AND 31 = 1" "(1 :: u32) AND 0x80 = 0"
    by simp_all
  show "(SIGHASH_ALL OR (ty AND SIGHASH_ANYONECANPAY)) AND 31 = SIGHASH_ALL"
    by (simp add: SIGHASH_ALL_def SIGHASH_ANYONECANPAY_def bit.conj_disj_distrib2
        and.assoc a)
  show "(SIGHASH_ALL OR (ty AND SIGHASH_ANYONECANPAY)) AND SIGHASH_ANYONECANPAY =
     ty AND SIGHASH_ANYONECANPAY"
    by (simp add: SIGHASH_ALL_def SIGHASH_ANYONECANPAY_def bit.conj_disj_distrib2
        and.assoc a)
qed

text \<open>
  Claim C10. A signature type whose low five bits are neither NONE nor SINGLE is
  treated as ALL. The legacy builder gives the copy it gives for ALL with the same
  ANYONECANPAY bit: all outputs, and the inputs with only their scripts replaced (only
  the input \<open>inputNumber\<close> under ANYONECANPAY), so no sequence number is changed. The
  Sapling-era builder hashes every output and, with ANYONECANPAY clear, every sequence
  number. No error is raised: a well-formed call returns a digest.
\<close>

theorem unknown_selector_as_all:
  assumes "ty AND 31 \<noteq> SIGHASH_NONE" and "ty AND 31 \<noteq> SIGHASH_SINGLE"
  shows "(n < length (inputs tx) \<longrightarrow>
           legacy_txcopy P tx ty n sub =
             Inr (Continue (tx\<lparr>inputs :=
               (if ty AND SIGHASH_ANYONECANPAY \<noteq> 0
                then [(inputs tx ! n)\<lparr>script := removeCodeseparators P sub\<rparr>]
                else spec_substitute_scripts (removeCodeseparators P sub) n (inputs tx))\<rparr>)) \<and>
           legacy_txcopy P tx ty n sub =
             legacy_txcopy P tx (SIGHASH_ALL OR (ty AND SIGHASH_ANYONECANPAY)) n sub) \<and>
         hashOutputs P tx ty n =
           Inr (blake2b P (ascii ''ZcashOutputsHash'')
                  (concat (map (output_toBuffer P) (outputs tx)))) \<and>
         (ty AND SIGHASH_ANYONECANPAY = 0 \<longrightarrow>
           hashSequence P tx ty =
             blake2b P (ascii ''ZcashSequencHash'')
               (concat (map (\<lambda>i. le32 (sequenceNumber i)) (inputs tx)))) \<and>
         hashOutputs P tx ty n = hashOutputs P tx SIGHASH_ALL n \<and>
         hashSequence P tx ty = hashSequence P tx (SIGHASH_ALL OR (ty AND SIGHASH_ANYONECANPAY)) \<and>
         (well_formed tx n \<longrightarrow> (\<exists>hashbuf. sighash P tx ty n sub = Inr hashbuf))"
proof -
  have all: "SIGHASH_ALL AND 31 = SIGHASH_ALL" "SIGHASH_ALL \<noteq> SIGHASH_NONE"
    "SIGHASH_ALL \<noteq> SIGHASH_SINGLE"
    by (simp_all add: SIGHASH_ALL_def SIGHASH_NONE_def SIGHASH_SINGLE_def)
  have subst: "legacy_inputs False s n ins = spec_substitute_scripts s n ins" for s ins
    unfolding spec_substitute_scripts_def legacy_inputs_def
    by (intro nth_equalityI) auto
  have legacy: "n < length (inputs tx) \<longrightarrow>
           legacy_txcopy P tx ty n sub =
             Inr (Continue (tx\<lparr>inputs :=
               (if ty AND SIGHASH_ANYONECANPAY \<noteq> 0
                then [(inputs tx ! n)\<lparr>script := removeCodeseparators P sub\<rparr>]
                else spec_substitute_scripts (removeCodeseparators P sub) n (inputs tx))\<rparr>)) \<and>
           legacy_txcopy P tx ty n sub =
             legacy_txcopy P tx (SIGHASH_ALL OR (ty AND SIGHASH_ANYONECANPAY)) n sub"
    using assms all by (simp add: legacy_txcopy_closed all_with_anyonecanpay subst)
  have outs: "hashOutputs P tx ty n =
           Inr (blake2b P (ascii ''ZcashOutputsHash'')
                  (concat (map (output_toBuffer P) (outputs tx))))"
    "hashOutputs P tx ty n = hashOutputs P tx SIGHASH_ALL n"
    using assms all by (simp_all add: hashOutputs_closed)
  have seqs: "ty AND SIGHASH_ANYONECANPAY = 0 \<longrightarrow>
           hashSequence P tx ty =
             blake2b P (ascii ''ZcashSequencHash'')
               (concat (map (\<lambda>i. le32 (sequenceNumber i)) (inputs tx)))"
    "hashSequence P tx ty = hashSequence P tx (SIGHASH_ALL OR (ty AND SIGHASH_ANYONECANPAY))"
    using assms all by (simp_all add: hashSequence_def GetSequenceHash_eq all_with_anyonecanpay)
  show ?thesis
    using legacy outs seqs sighash_total [of tx n P ty sub] by blast
qed

theorem unknown_selector_as_all_witness:
  "legacy_txcopy sample_prims sample_tx3 0 1 [0x51] =
     Inr (Continue (sample_tx3\<lparr>
       inputs := [(sample_input 1 7)\<lparr>script := []\<rparr>,
                  (sample_input 9 8)\<lparr>script := [0x51]\<rparr>,
                  (sample_input 4 6)\<lparr>script := []\<rparr>]\<rparr>)) \<and>
   legacy_txcopy sample_prims sample_tx3 0 1 [0x51] =
     legacy_txcopy sample_prims sample_tx3 1 1 [0x51] \<and>
   hashOutputs sample_prims (sample_tx 4 None) 0x1f 1 =
     Inr (ascii ''ZcashOutputsHash'' @ [5, 0, 0, 0, 0, 0, 0, 0, 1, 0x53]) \<and>
   (\<exists>hashbuf. sighash sample_prims (sample_tx 4 None) 0x1f 1 [0x51] = Inr hashbuf)"
proof -
  have a: "(0 :: u32) AND 31 \<noteq> SIGHASH_NONE" "(0 :: u32) AND 31 \<noteq> SIGHASH_SINGLE"
    and b: "(0x1f :: u32) AND 31 \<noteq> SIGHASH_NONE" "(0x1f :: u32) AND 31 \<noteq> SIGHASH_SINGLE"
    by (simp_all add: SIGHASH_NONE_def SIGHASH_SINGLE_def)
  have n: "1 < length (inputs sample_tx3)"
    by (simp add: sample_tx3_def)
  have wf: "well_formed (sample_tx 4 None) 1"
    by (simp add: well_formed_def sample_tx_def sample_input_def)
  have u: "[0..<3] = [0, 1, 2]"
    by (simp add: upt_rec)
  have l: "legacy_txcopy sample_prims sample_tx3 0 1 [0x51] =
             Inr (Continue (sample_tx3\<lparr>inputs :=
               (if (0 :: u32) AND SIGHASH_ANYONECANPAY \<noteq> 0
                then [(inputs sample_tx3 ! 1)\<lparr>script := removeCodeseparators sample_prims [0x51]\<rparr>]
                else spec_substitute_scripts (removeCodeseparators sample_prims [0x51]) 1
                       (inputs sample_tx3))\<rparr>)) \<and>
           legacy_txcopy sample_prims sample_tx3 0 1 [0x51] =
             legacy_txcopy sample_prims sample_tx3
               (SIGHASH_ALL OR ((0 :: u32) AND SIGHASH_ANYONECANPAY)) 1 [0x51]"
    using unknown_selector_as_all [OF a, of 1 sample_tx3 sample_prims "[0x51]"] n by blast
  have s: "hashOutputs sample_prims (sample_tx 4 None) 0x1f 1 =
           Inr (blake2b sample_prims (ascii ''ZcashOutputsHash'')
                  (concat (map (output_toBuffer sample_prims) (outputs (sample_tx 4 None))))) \<and>
         (\<exists>hashbuf. sighash sample_prims (sample_tx 4 None) 0x1f 1 [0x51] = Inr hashbuf)"
    using unknown_selector_as_all [OF b, of 1 "sample_tx 4 None" sample_prims "[0x51]"] wf
    by blast
  have l': "legacy_txcopy sample_prims sample_tx3 0 1 [0x51] =
     Inr (Continue (sample_tx3\<lparr>
       inputs := [(sample_input 1 7)\<lparr>script := []\<rparr>,
                  (sample_input 9 8)\<lparr>script := [0x51]\<rparr>,
                  (sample_input 4 6)\<lparr>script := []\<rparr>]\<rparr>))"
    using l by (simp add: spec_substitute_scripts_def sample_tx3_def sample_prims_def u)
  have s': "hashOutputs sample_prims (sample_tx 4 None) 0x1f 1 =
     Inr (ascii ''ZcashOutputsHash'' @ [5, 0, 0, 0, 0, 0, 0, 0, 1, 0x53])"
    using s by (simp add: sample_tx_def sample_prims_def sample_output_bytes_def le64_def varint_def)
  show ?thesis
    using l l' s s' by (auto simp: SIGHASH_ALL_def)
qed

subsection \<open>Signing and verifying\<close>

text \<open>
  Claim C1. For a well-formed transaction and input index, hashes that return 32 bytes,
  a private key with a matching public key, and any signature type and subscript,
  \<open>sign\<close> computes the digest with \<open>sighash\<close>, signs it as a little-endian scalar
  and attaches the signature type to the signature it returns. \<open>verify\<close> recomputes
  the digest with the type the signature carries and returns what the curve primitive
  says of that digest, the signature and the public key, little-endian; for the
  signature \<open>sign\<close> made this is true.
\<close>

theorem sign_verify_roundtrip:
  assumes "well_formed tx n" and "digests32 P" and "key_pair P privateKey publicKey"
  shows "\<exists>hashbuf sig.
     sighash P tx ty n sub = Inr hashbuf \<and> length hashbuf = 32 \<and>
     sig = set_nhashtype (ecdsa_sign P hashbuf privateKey Little) ty \<and>
     sign P tx privateKey ty n sub = Inr sig \<and>
     nhashtype sig = Some ty \<and>
     verify P (Some tx) (Some sig) publicKey n sub =
       Inr (ecdsa_verify P hashbuf sig publicKey Little) \<and>
     verify P (Some tx) (Some sig) publicKey n sub = Inr True \<and>
     (\<forall>sig' t' pub'. nhashtype sig' = Some t' \<longrightarrow>
        (\<exists>hashbuf'. sighash P tx t' n sub = Inr hashbuf' \<and>
           verify P (Some tx) (Some sig') pub' n sub =
             Inr (ecdsa_verify P hashbuf' sig' pub' Little)))"
proof -
  obtain hashbuf where h: "sighash P tx ty n sub = Inr hashbuf" and l: "length hashbuf = 32"
    using sighash_total [OF assms(1), of P ty sub] assms(2) by blast
  let ?sig = "set_nhashtype (ecdsa_sign P hashbuf privateKey Little) ty"
  have t: "nhashtype ?sig = Some ty"
    by (simp add: set_nhashtype_def)
  have v: "verify P (Some tx) (Some ?sig) publicKey n sub =
      Inr (ecdsa_verify P hashbuf ?sig publicKey Little)"
    by (simp add: verify_def t h)
  have "ecdsa_verify P hashbuf ?sig publicKey Little"
    using assms(3) l by (simp add: key_pair_def)
  with v have true: "verify P (Some tx) (Some ?sig) publicKey n sub = Inr True"
    by simp
  have s: "sign P tx privateKey ty n sub = Inr ?sig"
    by (simp add: sign_def h)
  have any: "\<exists>hashbuf'. sighash P tx t' n sub = Inr hashbuf' \<and>
           verify P (Some tx) (Some sig') pub' n sub =
             Inr (ecdsa_verify P hashbuf' sig' pub' Little)"
    if "nhashtype sig' = Some t'" for sig' t' pub'
    using sighash_total [OF assms(1), of P t' sub] that by (auto simp: verify_def)
  show ?thesis
    using h l t v true s any by blast
qed

theorem sign_verify_roundtrip_witness:
  "well_formed (sample_tx 4 None) 1 \<and> digests32 sample_prims32 \<and>
   key_pair sample_prims32 5 5 \<and>
   (\<exists>hashbuf sig.
      sighash sample_prims32 (sample_tx 4 None) 0x83 1 [0x51] = Inr hashbuf \<and>
      length hashbuf = 32 \<and>
      sig = \<lparr>sigvalue = (hashbuf, 5), nhashtype = Some 0x83\<rparr> \<and>
      sign sample_prims32 (sample_tx 4 None) 5 0x83 1 [0x51] = Inr sig \<and>
      verify sample_prims32 (Some (sample_tx 4 None)) (Some sig) 5 1 [0x51] = Inr True) \<and>
   verify sample_prims32 (Some (sample_tx 4 None))
     (Some \<lparr>sigvalue = ([], 5), nhashtype = Some 0x83\<rparr>) 5 1 [0x51] = Inr False"
proof -
  have wf: "well_formed (sample_tx 4 None) 1"
    by (simp add: well_formed_def sample_tx_def sample_input_def)
  have d: "digests32 sample_prims32"
    by (auto simp: digests32_def sample_prims32_def min_def)
  have kp: "key_pair sample_prims32 5 5"
    by (simp add: key_pair_def sample_prims32_def set_nhashtype_def)
  have sg: "set_nhashtype (ecdsa_sign sample_prims32 hashbuf 5 Little) 0x83 =
        \<lparr>sigvalue = (hashbuf, 5), nhashtype = Some 0x83\<rparr>" for hashbuf
    by (simp add: set_nhashtype_def sample_prims32_def)
  from sign_verify_roundtrip [OF wf d kp, of "0x83" "[0x51]"]
  obtain hashbuf sig where
    h: "sighash sample_prims32 (sample_tx 4 None) 0x83 1 [0x51] = Inr hashbuf" and
    l: "length hashbuf = 32" and
    s: "sig = set_nhashtype (ecdsa_sign sample_prims32 hashbuf 5 Little) 0x83" and
    si: "sign sample_prims32 (sample_tx 4 None) 5 0x83 1 [0x51] = Inr sig" and
    v: "verify sample_prims32 (Some (sample_tx 4 None)) (Some sig) 5 1 [0x51] = Inr True" and
    any: "\<forall>sig' t' pub'. nhashtype sig' = Some t' \<longrightarrow>
        (\<exists>hashbuf'. sighash sample_prims32 (sample_tx 4 None) t' 1 [0x51] = Inr hashbuf' \<and>
           verify sample_prims32 (Some (sample_tx 4 None)) (Some sig') pub' 1 [0x51] =
             Inr (ecdsa_verify sample_prims32 hashbuf' sig' pub' Little))"
    by blast
  have "nhashtype \<lparr>sigvalue = ([] :: bytes, 5 :: nat), nhashtype = Some 0x83\<rparr> = Some 0x83"
    by simp
  with any obtain hashbuf' where
    "sighash sample_prims32 (sample_tx 4 None) 0x83 1 [0x51] = Inr hashbuf'" and
    w: "verify sample_prims32 (Some (sample_tx 4 None))
          (Some \<lparr>sigvalue = ([], 5), nhashtype = Some 0x83\<rparr>) 5 1 [0x51] =
        Inr (ecdsa_verify sample_prims32 hashbuf' \<lparr>sigvalue = ([], 5), nhashtype = Some 0x83\<rparr>
               5 Little)"
    by blast
  with h l have "hashbuf' \<noteq> []"
    by auto
  with w have false: "verify sample_prims32 (Some (sample_tx 4 None))
     (Some \<lparr>sigvalue = ([], 5), nhashtype = Some 0x83\<rparr>) 5 1 [0x51] = Inr False"
    by (simp add: sample_prims32_def)
  show ?thesis
    using wf d kp h l s si v false by (auto simp: sg)
qed

text \<open>
  Claim C8. \<open>verify\<close> raises the precondition violation exactly when the transaction
  is absent, the signature is absent or the signature carries no signature type, whatever
  the digest computation would do. For a well-formed call it returns the boolean the
  curve primitive gives for the recomputed digest, so a signature that does not verify is
  reported as false.
\<close>

theorem verify_preconditions:
  "(verify P transaction signature publicKey n sub = Inl InvalidArgument) =
     (transaction = None \<or> signature = None \<or>
      (\<exists>sig. signature = Some sig \<and> nhashtype sig = None)) \<and>
   (\<forall>tx sig t. transaction = Some tx \<and> signature = Some sig \<and> nhashtype sig = Some t \<and>
        well_formed tx n \<longrightarrow>
      (\<exists>hashbuf. sighash P tx t n sub = Inr hashbuf \<and>
         verify P transaction signature publicKey n sub =
           Inr (ecdsa_verify P hashbuf sig publicKey Little)))"
proof -
  have "(verify P transaction signature publicKey n sub = Inl InvalidArgument) =
     (transaction = None \<or> signature = None \<or>
      (\<exists>sig. signature = Some sig \<and> nhashtype sig = None))"
    using sighash_never_InvalidArgument [of P]
    by (auto simp: verify_def split: option.splits sum.splits)
  moreover have "\<exists>hashbuf. sighash P tx t n sub = Inr hashbuf \<and>
         verify P transaction signature publicKey n sub =
           Inr (ecdsa_verify P hashbuf sig publicKey Little)"
    if "transaction = Some tx" "signature = Some sig" "nhashtype sig = Some t" "well_formed tx n"
    for tx sig t
    using sighash_total [OF that(4), of P t sub] that by (auto simp: verify_def)
  ultimately show ?thesis by blast
qed

theorem verify_preconditions_witness:
  "verify sample_prims None (Some \<lparr>sigvalue = ([], 5), nhashtype = Some 1\<rparr>) 5 1 [0x51] =
     Inl InvalidArgument \<and>
   verify sample_prims (Some (sample_tx 4 None)) (Some \<lparr>sigvalue = ([], 5), nhashtype = None\<rparr>)
     5 7 [0x51] = Inl InvalidArgument \<and>
   verify sample_prims (Some (sample_tx 4 None)) (Some \<lparr>sigvalue = ([], 5), nhashtype = Some 1\<rparr>)
     5 1 [0x51] = Inr False"
proof -
  have wf: "well_formed (sample_tx 4 None) 1"
    by (simp add: well_formed_def sample_tx_def sample_input_def)
  have a: "verify sample_prims None (Some \<lparr>sigvalue = ([], 5), nhashtype = Some 1\<rparr>) 5 1 [0x51] =
     Inl InvalidArgument"
    using verify_preconditions [of sample_prims None
        "Some \<lparr>sigvalue = ([], 5), nhashtype = Some 1\<rparr>" 5 1 "[0x51]"]
    by simp
  have b: "verify sample_prims (Some (sample_tx 4 None))
      (Some \<lparr>sigvalue = ([], 5), nhashtype = None\<rparr>) 5 7 [0x51] = Inl InvalidArgument"
    using verify_preconditions [of sample_prims "Some (sample_tx 4 None)"
        "Some \<lparr>sigvalue = ([], 5), nhashtype = None\<rparr>" 5 7 "[0x51]"]
    by simp
  have "\<exists>hashbuf. sighash sample_prims (sample_tx 4 None) 1 1 [0x51] = Inr hashbuf \<and>
      verify sample_prims (Some (sample_tx 4 None))
        (Some \<lparr>sigvalue = ([], 5), nhashtype = Some 1\<rparr>) 5 1 [0x51] =
      Inr (ecdsa_verify sample_prims hashbuf \<lparr>sigvalue = ([], 5), nhashtype = Some 1\<rparr> 5 Little)"
    using verify_preconditions [of sample_prims "Some (sample_tx 4 None)"
        "Some \<lparr>sigvalue = ([], 5), nhashtype = Some 1\<rparr>" 5 1 "[0x51]"] wf
    by simp
  then obtain hashbuf where
    h: "sighash sample_prims (sample_tx 4 None) 1 1 [0x51] = Inr hashbuf" and
    v: "verify sample_prims (Some (sample_tx 4 None))
        (Some \<lparr>sigvalue = ([], 5), nhashtype = Some 1\<rparr>) 5 1 [0x51] =
      Inr (ecdsa_verify sample_prims hashbuf \<lparr>sigvalue = ([], 5), nhashtype = Some 1\<rparr> 5 Little)"
    by blast
  have "hashbuf \<noteq> []"
    using h sighash_sapling_closed [of "sample_tx 4 None" 1
        "\<lparr>satoshis = 1000, lockingScript = [0x52]\<rparr>" sample_prims 1 "[0x51]"]
    by (auto simp: sample_tx_def sample_input_def spec_sapling_digest_def sample_prims_def
        ascii_def)
  then have c: "verify sample_prims (Some (sample_tx 4 None))
      (Some \<lparr>sigvalue = ([], 5), nhashtype = Some 1\<rparr>) 5 1 [0x51] = Inr False"
    using v by (simp add: sample_prims_def)
  show ?thesis
    using a b c by simp
qed

subsection \<open>The builder keeps the caller's objects\<close>

lemma prefix_update:
  assumes "prefix xs ys" and "length xs \<le> r"
  shows "prefix xs (ys[r := v])"
proof -
  from assms(1) obtain zs where "ys = xs @ zs"
    by (auto simp: prefix_def)
  with assms(2) show ?thesis
    by (simp add: list_update_append)
qed

lemma prefix_append_right: "prefix xs ys \<Longrightarrow> prefix xs (ys @ zs)"
  by (auto simp: prefix_def)

lemma extends_refl: "extends h h"
  by (simp add: extends_def)

lemma extends_length:
  assumes "extends h0 h"
  shows "length (h_txs h0) \<le> length (h_txs h)"
    and "length (h_inputArrays h0) \<le> length (h_inputArrays h)"
    and "length (h_inputs h0) \<le> length (h_inputs h)"
    and "length (h_outputArrays h0) \<le> length (h_outputArrays h)"
    and "length (h_scripts h0) \<le> length (h_scripts h)"
  using assms by (auto simp: extends_def dest: prefix_length_le)

lemma keepsI:
  assumes "\<And>h. extends h0 h \<Longrightarrow> Q h \<Longrightarrow> extends h0 (snd (m h))"
    and "\<And>h x. extends h0 h \<Longrightarrow> Q h \<Longrightarrow> fst (m h) = Inr x \<Longrightarrow> R x (snd (m h))"
  shows "keeps h0 Q m R"
  using assms by (simp add: keeps_def)

lemma keeps_ret: "(\<And>h. Q h \<Longrightarrow> R x h) \<Longrightarrow> keeps h0 Q (ret x) R"
  by (simp add: keeps_def ret_def)

lemma keeps_raise: "keeps h0 Q (raise e) R"
  by (simp add: keeps_def raise_def)

lemma keeps_andThen:
  assumes "keeps h0 Q m S" and "\<And>x. keeps h0 (S x) (f x) R"
  shows "keeps h0 Q (andThen m f) R"
proof (rule keepsI)
  fix h
  assume h: "extends h0 h" "Q h"
  obtain r h' where m: "m h = (r, h')"
    by (cases "m h")
  from assms(1) h m have e: "extends h0 h'" and s: "\<And>x. r = Inr x \<Longrightarrow> S x h'"
    by (auto simp: keeps_def)
  show "extends h0 (snd (andThen m f h))"
  proof (cases r)
    case (Inl err)
    with m e show ?thesis by (simp add: andThen_def)
  next
    case (Inr x)
    with assms(2) [of x] e s m show ?thesis by (simp add: andThen_def keeps_def)
  qed
  fix y
  assume y: "fst (andThen m f h) = Inr y"
  show "R y (snd (andThen m f h))"
  proof (cases r)
    case (Inl err)
    with m y show ?thesis by (simp add: andThen_def)
  next
    case (Inr x)
    with assms(2) [of x] e s m y show ?thesis by (simp add: andThen_def keeps_def)
  qed
qed

lemma keeps_weaken:
  assumes "keeps h0 Q' m R'" and "\<And>h. Q h \<Longrightarrow> Q' h" and "\<And>x h. R' x h \<Longrightarrow> R x h"
  shows "keeps h0 Q m R"
  using assms by (simp add: keeps_def)

lemma keeps_if:
  assumes "c \<Longrightarrow> keeps h0 Q m R" and "\<not> c \<Longrightarrow> keeps h0 Q m' R"
  shows "keeps h0 Q (if c then m else m') R"
  using assms by simp

lemma keeps_forEach:
  assumes "\<And>i. keeps h0 I (body i) (\<lambda>_. I)"
  shows "keeps h0 I (forEach is body) (\<lambda>_. I)"
proof (induction "is")
  case Nil
  show ?case by (simp add: keeps_ret)
next
  case (Cons i "is")
  show ?case
    unfolding forEach.simps
    by (rule keeps_andThen [OF assms Cons])
qed

text \<open>Reading leaves the store as it is.\<close>

lemma keeps_deref:
  "keeps h0 Q (deref part r) (\<lambda>x h. Q h \<and> lookup (part h) r = Some x)"
  by (auto simp: keeps_def deref_def split: option.splits)

lemma keeps_get_tx: "keeps h0 Q (get_tx t) (\<lambda>x h. Q h)"
  by (auto simp: keeps_def get_tx_def split: option.splits)

lemma keeps_inputs_array:
  "keeps h0 (apart h0 c) (inputs_array c)
     (\<lambda>(a, rs) h. apart h0 c h \<and> length (h_inputArrays h0) \<le> a \<and>
        (\<forall>r \<in> set rs. length (h_inputs h0) \<le> r))"
  by (auto simp: keeps_def inputs_array_def andThen_def deref_def ret_def apart_def
      split: option.splits)

lemma keeps_outputs_array:
  "keeps h0 (apart h0 c) (outputs_array c)
     (\<lambda>(a, outs) h. apart h0 c h \<and> length (h_outputArrays h0) \<le> a)"
  by (auto simp: keeps_def outputs_array_def andThen_def deref_def ret_def apart_def
      split: option.splits)


text \<open>Allocation appends.\<close>

lemma keeps_new_Input:
  "keeps h0 (apart h0 c) (new_Input x) (\<lambda>r h. apart h0 c h \<and> length (h_inputs h0) \<le> r)"
  by (auto simp: keeps_def new_Input_def extends_def apart_def prefix_append_right
      dest: prefix_length_le)

lemma keeps_new_inputArray:
  assumes "\<forall>r \<in> set rs. length (h_inputs h0) \<le> r"
  shows "keeps h0 (apart h0 c) (new_inputArray rs)
     (\<lambda>a h. apart h0 c h \<and> length (h_inputArrays h0) \<le> a \<and>
        lookup (h_inputArrays h) a = Some rs)"
  using assms
  by (auto simp: keeps_def new_inputArray_def extends_def apart_def prefix_append_right
      lookup_def nth_append dest: prefix_length_le split: if_splits)

lemma keeps_new_outputArray:
  "keeps h0 (apart h0 c) (new_outputArray outs)
     (\<lambda>a h. apart h0 c h \<and> length (h_outputArrays h0) \<le> a)"
  by (auto simp: keeps_def new_outputArray_def extends_def apart_def prefix_append_right
      dest: prefix_length_le)

lemma keeps_new_Script:
  "keeps h0 (apart h0 c) (new_Script s) (\<lambda>r h. apart h0 c h \<and> length (h_scripts h0) \<le> r)"
  by (auto simp: keeps_def new_Script_def andThen_def deref_def extends_def apart_def
      prefix_append_right dest: prefix_length_le split: option.splits)

lemma keeps_shallowCopy_store:
  "keeps h0 (\<lambda>_. True) (shallowCopy_store t) (\<lambda>c h. apart h0 c h)"
proof -
  have "keeps h0 (\<lambda>_. True) (new_Transaction tx) (\<lambda>c h. apart h0 c h)" for tx
    by (auto simp: keeps_def new_Transaction_def extends_def apart_def prefix_append_right
        lookup_def nth_append dest: prefix_length_le split: if_splits)
  then show ?thesis
    unfolding shallowCopy_store_def
    by (intro keeps_andThen [OF keeps_get_tx])
qed

text \<open>Assignment in place is to new objects only.\<close>

lemma keeps_set_input_slot:
  assumes "length (h_inputArrays h0) \<le> a" and "length (h_inputs h0) \<le> r"
  shows "keeps h0 (apart h0 c) (set_input_slot a i r) (\<lambda>_. apart h0 c)"
proof (rule keepsI)
  fix h
  assume h: "extends h0 h" "apart h0 c h"
  show "extends h0 (snd (set_input_slot a i r h))"
    using h(1) assms(1) by (simp add: set_input_slot_def extends_def prefix_update)
  fix x
  assume "fst (set_input_slot a i r h) = Inr x"
  then have a: "a < length (h_inputArrays h)"
    by (simp add: set_input_slot_def split: if_splits)
  have "set ((h_inputArrays h ! a)[i := r]) \<subseteq> insert r (set (h_inputArrays h ! a))"
    by (rule set_update_subset_insert)
  then show "apart h0 c (snd (set_input_slot a i r h))"
    using h(2) a assms(2)
    by (auto simp: set_input_slot_def apart_def lookup_def nth_list_update split: if_splits)
qed

lemma keeps_set_sequenceNumber:
  assumes "length (h_inputs h0) \<le> r"
  shows "keeps h0 (apart h0 c) (set_sequenceNumber r q) (\<lambda>_. apart h0 c)"
  using assms
  by (auto simp: keeps_def set_sequenceNumber_def extends_def apart_def prefix_update)

lemma keeps_set_outputs_length:
  assumes "length (h_outputArrays h0) \<le> a"
  shows "keeps h0 (apart h0 c) (set_outputs_length a k) (\<lambda>_. apart h0 c)"
  using assms
  by (auto simp: keeps_def set_outputs_length_def extends_def apart_def prefix_update)

lemma keeps_set_output_slot:
  assumes "length (h_outputArrays h0) \<le> a"
  shows "keeps h0 (apart h0 c) (set_output_slot a i out) (\<lambda>_. apart h0 c)"
  using assms
  by (auto simp: keeps_def set_output_slot_def extends_def apart_def prefix_update)

lemma keeps_set_tx_outputs:
  assumes "length (h_outputArrays h0) \<le> a"
  shows "keeps h0 (apart h0 c) (set_tx_outputs c a) (\<lambda>_. apart h0 c)"
  using assms
  by (auto simp: keeps_def set_tx_outputs_def extends_def apart_def prefix_update lookup_def
      split: if_splits)

lemma keeps_set_tx_inputs:
  assumes "length (h_inputArrays h0) \<le> a" and "\<forall>r \<in> set rs. length (h_inputs h0) \<le> r"
  shows "keeps h0 (\<lambda>h. apart h0 c h \<and> lookup (h_inputArrays h) a = Some rs)
           (set_tx_inputs c a) (\<lambda>_. apart h0 c)"
  using assms
  by (auto simp: keeps_def set_tx_inputs_def extends_def apart_def prefix_update lookup_def
      split: if_splits)

lemma keeps_removeCodeseparators_store:
  assumes "length (h_scripts h0) \<le> s"
  shows "keeps h0 (apart h0 c) (removeCodeseparators_store P s) (\<lambda>_. apart h0 c)"
  using assms
  by (auto simp: keeps_def removeCodeseparators_store_def extends_def apart_def prefix_update)


lemma keeps_pure:
  assumes "F \<Longrightarrow> keeps h0 Q m R"
  shows "keeps h0 (\<lambda>h. Q h \<and> F) m R"
  using assms by (auto simp: keeps_def)

text \<open>The steps of the builder.\<close>

lemma keeps_replace_input:
  "keeps h0 (apart h0 c) (replace_input c i s) (\<lambda>_. apart h0 c)"
  unfolding replace_input_def
proof (rule keeps_andThen [OF keeps_inputs_array], clarify)
  fix a and rs :: "ref list"
  show "keeps h0
          (\<lambda>h. apart h0 c h \<and> length (h_inputArrays h0) \<le> a \<and>
             (\<forall>r \<in> set rs. length (h_inputs h0) \<le> r))
          (if i < length rs
           then andThen (deref h_inputs (rs ! i)) (\<lambda>x.
                andThen (new_Input (setScript x s)) (\<lambda>r. set_input_slot a i r))
           else raise TypeError)
          (\<lambda>_. apart h0 c)"
  proof (rule keeps_pure)
    assume a: "length (h_inputArrays h0) \<le> a \<and> (\<forall>r \<in> set rs. length (h_inputs h0) \<le> r)"
    have "keeps h0 (apart h0 c)
            (andThen (deref h_inputs (rs ! i)) (\<lambda>x.
               andThen (new_Input (setScript x s)) (\<lambda>r. set_input_slot a i r)))
            (\<lambda>_. apart h0 c)"
    proof (rule keeps_andThen [OF keeps_deref])
      fix x
      show "keeps h0 (\<lambda>h. apart h0 c h \<and> lookup (h_inputs h) (rs ! i) = Some x)
              (andThen (new_Input (setScript x s)) (\<lambda>r. set_input_slot a i r))
              (\<lambda>_. apart h0 c)"
      proof (rule keeps_weaken [where Q' = "apart h0 c" and R' = "\<lambda>_. apart h0 c"])
        show "keeps h0 (apart h0 c)
                (andThen (new_Input (setScript x s)) (\<lambda>r. set_input_slot a i r))
                (\<lambda>_. apart h0 c)"
        proof (rule keeps_andThen [OF keeps_new_Input])
          fix r
          show "keeps h0 (\<lambda>h. apart h0 c h \<and> length (h_inputs h0) \<le> r)
                  (set_input_slot a i r) (\<lambda>_. apart h0 c)"
            using a by (intro keeps_pure keeps_set_input_slot) simp_all
        qed
      qed simp_all
    qed
    then show "keeps h0 (apart h0 c)
          (if i < length rs
           then andThen (deref h_inputs (rs ! i)) (\<lambda>x.
                andThen (new_Input (setScript x s)) (\<lambda>r. set_input_slot a i r))
           else raise TypeError)
          (\<lambda>_. apart h0 c)"
      by (simp add: keeps_raise)
  qed
qed

lemma keeps_blank_scripts_store:
  "keeps h0 (apart h0 c) (blank_scripts_store c) (\<lambda>_. apart h0 c)"
  unfolding blank_scripts_store_def
proof (rule keeps_andThen [OF keeps_inputs_array], clarify)
  fix a and rs :: "ref list"
  have "keeps h0 (apart h0 c) (forEach [0..<length rs] (\<lambda>i. replace_input c i []))
          (\<lambda>_. apart h0 c)"
    by (rule keeps_forEach) (rule keeps_replace_input)
  then show "keeps h0
          (\<lambda>h. apart h0 c h \<and> length (h_inputArrays h0) \<le> a \<and>
             (\<forall>r \<in> set rs. length (h_inputs h0) \<le> r))
          (forEach [0..<length rs] (\<lambda>i. replace_input c i [])) (\<lambda>_. apart h0 c)"
    by (rule keeps_weaken) simp_all
qed

lemma keeps_clear_one:
  "keeps h0 (apart h0 c)
     (andThen (inputs_array c) (\<lambda>(a, rs).
        if i < length rs then set_sequenceNumber (rs ! i) 0 else raise TypeError))
     (\<lambda>_. apart h0 c)"
proof (rule keeps_andThen [OF keeps_inputs_array], clarify)
  fix a and rs :: "ref list"
  show "keeps h0
          (\<lambda>h. apart h0 c h \<and> length (h_inputArrays h0) \<le> a \<and>
             (\<forall>r \<in> set rs. length (h_inputs h0) \<le> r))
          (if i < length rs then set_sequenceNumber (rs ! i) 0 else raise TypeError)
          (\<lambda>_. apart h0 c)"
  proof (rule keeps_pure)
    assume "length (h_inputArrays h0) \<le> a \<and> (\<forall>r \<in> set rs. length (h_inputs h0) \<le> r)"
    then show "keeps h0 (apart h0 c)
          (if i < length rs then set_sequenceNumber (rs ! i) 0 else raise TypeError)
          (\<lambda>_. apart h0 c)"
      by (auto intro: keeps_set_sequenceNumber keeps_raise)
  qed
qed

lemma keeps_clear_sequenceNumbers_store:
  "keeps h0 (apart h0 c) (clear_sequenceNumbers_store n c) (\<lambda>_. apart h0 c)"
  unfolding clear_sequenceNumbers_store_def
proof (rule keeps_andThen [OF keeps_inputs_array], clarify)
  fix a and rs :: "ref list"
  have "keeps h0 (apart h0 c)
          (forEach [0..<length rs] (\<lambda>i.
             if i \<noteq> n
             then andThen (inputs_array c) (\<lambda>(a, rs).
                    if i < length rs then set_sequenceNumber (rs ! i) 0 else raise TypeError)
             else ret ()))
          (\<lambda>_. apart h0 c)"
    by (rule keeps_forEach) (auto intro: keeps_clear_one keeps_ret)
  then show "keeps h0
          (\<lambda>h. apart h0 c h \<and> length (h_inputArrays h0) \<le> a \<and>
             (\<forall>r \<in> set rs. length (h_inputs h0) \<le> r))
          (forEach [0..<length rs] (\<lambda>i.
             if i \<noteq> n
             then andThen (inputs_array c) (\<lambda>(a, rs).
                    if i < length rs then set_sequenceNumber (rs ! i) 0 else raise TypeError)
             else ret ()))
          (\<lambda>_. apart h0 c)"
    by (rule keeps_weaken) simp_all
qed

lemma keeps_legacy_outputs_store:
  "keeps h0 (apart h0 c) (legacy_outputs_store c ty n) (\<lambda>_. apart h0 c)"
proof -
  have none: "keeps h0 (apart h0 c)
      (andThen (new_outputArray []) (\<lambda>a.
         andThen (set_tx_outputs c a) (\<lambda>_. ret (Continue ()))))
      (\<lambda>_. apart h0 c)"
  proof (rule keeps_andThen [OF keeps_new_outputArray])
    fix a
    show "keeps h0 (\<lambda>h. apart h0 c h \<and> length (h_outputArrays h0) \<le> a)
            (andThen (set_tx_outputs c a) (\<lambda>_. ret (Continue ()))) (\<lambda>_. apart h0 c)"
      by (intro keeps_pure keeps_andThen [OF keeps_set_tx_outputs] keeps_ret)
  qed
  have single: "keeps h0 (apart h0 c)
      (andThen (outputs_array c) (\<lambda>(a, outs).
         if n \<ge> length outs then ret (Return SIGHASH_SINGLE_BUG)
         else andThen (set_outputs_length a (n + 1)) (\<lambda>_.
              andThen (forEach [0..<n] (\<lambda>i. set_output_slot a i null_output)) (\<lambda>_.
              ret (Continue ())))))
      (\<lambda>_. apart h0 c)"
  proof (rule keeps_andThen [OF keeps_outputs_array], clarify)
    fix a and outs :: "Output list"
    show "keeps h0 (\<lambda>h. apart h0 c h \<and> length (h_outputArrays h0) \<le> a)
            (if n \<ge> length outs then ret (Return SIGHASH_SINGLE_BUG)
             else andThen (set_outputs_length a (n + 1)) (\<lambda>_.
                  andThen (forEach [0..<n] (\<lambda>i. set_output_slot a i null_output)) (\<lambda>_.
                  ret (Continue ()))))
            (\<lambda>_. apart h0 c)"
    proof (rule keeps_pure)
      assume a: "length (h_outputArrays h0) \<le> a"
      have loop: "keeps h0 (apart h0 c) (forEach [0..<n] (\<lambda>i. set_output_slot a i null_output))
          (\<lambda>_. apart h0 c)"
        by (rule keeps_forEach) (rule keeps_set_output_slot [OF a])
      have "keeps h0 (apart h0 c)
              (andThen (set_outputs_length a (n + 1)) (\<lambda>_.
               andThen (forEach [0..<n] (\<lambda>i. set_output_slot a i null_output)) (\<lambda>_.
               ret (Continue ()))))
              (\<lambda>_. apart h0 c)"
        by (intro keeps_andThen [OF keeps_set_outputs_length [OF a]] keeps_andThen [OF loop]
            keeps_ret)
      then show "keeps h0 (apart h0 c)
            (if n \<ge> length outs then ret (Return SIGHASH_SINGLE_BUG)
             else andThen (set_outputs_length a (n + 1)) (\<lambda>_.
                  andThen (forEach [0..<n] (\<lambda>i. set_output_slot a i null_output)) (\<lambda>_.
                  ret (Continue ()))))
            (\<lambda>_. apart h0 c)"
        by (simp add: keeps_ret)
    qed
  qed
  show ?thesis
    unfolding legacy_outputs_store_def
    by (intro keeps_if none single keeps_ret)
qed

lemma keeps_collapse_inputs:
  "keeps h0 (apart h0 c) (collapse_inputs c n) (\<lambda>_. apart h0 c)"
  unfolding collapse_inputs_def
proof (rule keeps_andThen [OF keeps_inputs_array], clarify)
  fix a and rs :: "ref list"
  show "keeps h0
          (\<lambda>h. apart h0 c h \<and> length (h_inputArrays h0) \<le> a \<and>
             (\<forall>r \<in> set rs. length (h_inputs h0) \<le> r))
          (if n < length rs
           then andThen (new_inputArray [rs ! n]) (\<lambda>a'. set_tx_inputs c a')
           else raise TypeError)
          (\<lambda>_. apart h0 c)"
  proof (rule keeps_pure)
    assume a: "length (h_inputArrays h0) \<le> a \<and> (\<forall>r \<in> set rs. length (h_inputs h0) \<le> r)"
    have "keeps h0 (apart h0 c)
            (andThen (new_inputArray [rs ! n]) (\<lambda>a'. set_tx_inputs c a')) (\<lambda>_. apart h0 c)"
      if n: "n < length rs"
    proof -
      have fresh: "\<forall>r \<in> set [rs ! n]. length (h_inputs h0) \<le> r"
        using a n by simp
      show ?thesis
      proof (rule keeps_andThen [OF keeps_new_inputArray [OF fresh]])
        fix a'
        have "keeps h0 (\<lambda>h. (apart h0 c h \<and> lookup (h_inputArrays h) a' = Some [rs ! n]) \<and>
                  length (h_inputArrays h0) \<le> a')
                (set_tx_inputs c a') (\<lambda>_. apart h0 c)"
          by (rule keeps_pure) (rule keeps_set_tx_inputs [OF _ fresh])
        then show "keeps h0 (\<lambda>h. apart h0 c h \<and> length (h_inputArrays h0) \<le> a' \<and>
                  lookup (h_inputArrays h) a' = Some [rs ! n])
                (set_tx_inputs c a') (\<lambda>_. apart h0 c)"
          by (rule keeps_weaken) simp_all
      qed
    qed
    then show "keeps h0 (apart h0 c)
          (if n < length rs
           then andThen (new_inputArray [rs ! n]) (\<lambda>a'. set_tx_inputs c a')
           else raise TypeError)
          (\<lambda>_. apart h0 c)"
      by (simp add: keeps_raise)
  qed
qed


lemma keeps_any: "keeps h0 Q m R \<Longrightarrow> keeps h0 Q m (\<lambda>_ _. True)"
  by (simp add: keeps_def)

lemma keeps_legacy_txcopy_store:
  "keeps h0 (\<lambda>_. True) (legacy_txcopy_store P t ty n s) (\<lambda>_ _. True)"
  unfolding legacy_txcopy_store_def
proof (rule keeps_andThen [OF keeps_shallowCopy_store])
  fix c
  let ?clear = "if ty AND 31 = SIGHASH_NONE \<or> ty AND 31 = SIGHASH_SINGLE
                then clear_sequenceNumbers_store n c else ret ()"
  let ?collapse = "if ty AND SIGHASH_ANYONECANPAY \<noteq> 0 then collapse_inputs c n else ret ()"
  let ?tail = "\<lambda>r. case r of
                  Return buf \<Rightarrow> ret (Return buf)
                | Continue (_ :: unit) \<Rightarrow> andThen ?collapse (\<lambda>_. ret (Continue c))"
  have clear: "keeps h0 (apart h0 c) ?clear (\<lambda>_. apart h0 c)"
    by (intro keeps_if keeps_clear_sequenceNumbers_store keeps_ret)
  have collapse: "keeps h0 (apart h0 c) ?collapse (\<lambda>_. apart h0 c)"
    by (intro keeps_if keeps_collapse_inputs keeps_ret)
  have tail: "keeps h0 (apart h0 c) (?tail r) (\<lambda>_ _. True)" for r
  proof (cases r)
    case (Return buf)
    then show ?thesis by (simp add: keeps_ret)
  next
    case (Continue u)
    have "keeps h0 (apart h0 c) (andThen ?collapse (\<lambda>_. ret (Continue c))) (\<lambda>_ _. True)"
      by (rule keeps_andThen [OF collapse]) (rule keeps_ret, simp)
    then show ?thesis using Continue by simp
  qed
  have rest: "keeps h0 (apart h0 c)
      (andThen (blank_scripts_store c) (\<lambda>_.
       andThen (deref h_scripts s') (\<lambda>v.
       andThen (replace_input c n v) (\<lambda>_.
       andThen ?clear (\<lambda>_.
       andThen (legacy_outputs_store c ty n) ?tail)))))
      (\<lambda>_ _. True)" for s'
  proof (rule keeps_andThen [OF keeps_blank_scripts_store],
      rule keeps_andThen [OF keeps_deref])
    fix v
    have "keeps h0 (apart h0 c)
            (andThen (replace_input c n v) (\<lambda>_.
             andThen ?clear (\<lambda>_.
             andThen (legacy_outputs_store c ty n) ?tail)))
            (\<lambda>_ _. True)"
      by (intro keeps_andThen [OF keeps_replace_input] keeps_andThen [OF clear]
          keeps_andThen [OF keeps_legacy_outputs_store] tail)
    then show "keeps h0 (\<lambda>h. apart h0 c h \<and> lookup (h_scripts h) s' = Some v)
            (andThen (replace_input c n v) (\<lambda>_.
             andThen ?clear (\<lambda>_.
             andThen (legacy_outputs_store c ty n) ?tail)))
            (\<lambda>_ _. True)"
      by (rule keeps_weaken) simp_all
  qed
  show "keeps h0 (apart h0 c)
      (andThen (new_Script s) (\<lambda>s'.
       andThen (removeCodeseparators_store P s') (\<lambda>_.
       andThen (blank_scripts_store c) (\<lambda>_.
       andThen (deref h_scripts s') (\<lambda>v.
       andThen (replace_input c n v) (\<lambda>_.
       andThen ?clear (\<lambda>_.
       andThen (legacy_outputs_store c ty n) ?tail)))))))
      (\<lambda>_ _. True)"
  proof (rule keeps_andThen [OF keeps_new_Script])
    fix s'
    show "keeps h0 (\<lambda>h. apart h0 c h \<and> length (h_scripts h0) \<le> s')
      (andThen (removeCodeseparators_store P s') (\<lambda>_.
       andThen (blank_scripts_store c) (\<lambda>_.
       andThen (deref h_scripts s') (\<lambda>v.
       andThen (replace_input c n v) (\<lambda>_.
       andThen ?clear (\<lambda>_.
       andThen (legacy_outputs_store c ty n) ?tail))))))
      (\<lambda>_ _. True)"
      by (intro keeps_pure keeps_andThen [OF keeps_removeCodeseparators_store] rest)
  qed
qed

lemma keeps_sighash_store:
  "keeps h0 (\<lambda>_. True) (sighash_store P t ty n s) (\<lambda>_ _. True)"
proof -
  have pure: "keeps h0 Q (\<lambda>h. (r, h)) (\<lambda>_ _. True)" for Q and r :: "error + bytes"
    by (simp add: keeps_def)
  have sapling: "keeps h0 (\<lambda>_. True)
      (andThen (get_tx t) (\<lambda>tx.
       andThen (deref h_scripts s) (\<lambda>s h. (sighashSapling P tx ty n s, h))))
      (\<lambda>_ _. True)"
    by (intro keeps_andThen [OF keeps_get_tx] keeps_andThen [OF keeps_deref] pure)
  have fin: "keeps h0 (\<lambda>_. True)
      (case r of
         Return buf \<Rightarrow> ret buf
       | Continue txcopy \<Rightarrow>
           andThen (get_tx txcopy) (\<lambda>tx.
             (let buf = toBuffer (writeInt32LE (writeBuf [] (tx_toBuffer P tx)) ty);
                  ret' = sha256sha256 P buf
              in ret (readReverse ret'))))
      (\<lambda>_ _. True)" for r
    by (cases r) (auto simp: Let_def intro!: keeps_ret keeps_andThen [OF keeps_get_tx])
  have legacy: "keeps h0 (\<lambda>_. True)
      (andThen (legacy_txcopy_store P t ty n s) (\<lambda>r.
         case r of
           Return buf \<Rightarrow> ret buf
         | Continue txcopy \<Rightarrow>
             andThen (get_tx txcopy) (\<lambda>tx.
               (let buf = toBuffer (writeInt32LE (writeBuf [] (tx_toBuffer P tx)) ty);
                    ret' = sha256sha256 P buf
                in ret (readReverse ret')))))
      (\<lambda>_ _. True)"
    by (rule keeps_andThen [OF keeps_legacy_txcopy_store]) (rule fin)
  show ?thesis
    unfolding sighash_store_def
  proof (rule keeps_andThen [OF keeps_deref])
    fix obj
    show "keeps h0 (\<lambda>h. True \<and> lookup (h_txs h) t = Some obj)
        (if o_version obj \<ge> 4
         then andThen (get_tx t) (\<lambda>tx.
              andThen (deref h_scripts s) (\<lambda>s h. (sighashSapling P tx ty n s, h)))
         else andThen (legacy_txcopy_store P t ty n s) (\<lambda>r.
                case r of
                  Return buf \<Rightarrow> ret buf
                | Continue txcopy \<Rightarrow>
                    andThen (get_tx txcopy) (\<lambda>tx.
                      (let buf = toBuffer (writeInt32LE (writeBuf [] (tx_toBuffer P tx)) ty);
                           ret' = sha256sha256 P buf
                       in ret (readReverse ret')))))
        (\<lambda>_ _. True)"
      by (rule keeps_weaken [where Q' = "\<lambda>_. True" and R' = "\<lambda>_ _. True"])
        (auto intro: sapling legacy)
  qed
qed

lemma sighash_store_extends:
  assumes "sighash_store P t ty n s h = (r, h')"
  shows "extends h h'"
proof -
  have "extends h (snd (sighash_store P t ty n s h))"
    using keeps_sighash_store [of h P t ty n s] extends_refl [of h] by (simp add: keeps_def)
  with assms show ?thesis by simp
qed

lemma sign_store_extends:
  assumes "sign_store P t k ty n s h = (r, h')"
  shows "extends h h'"
  using assms
  by (auto simp: sign_store_def andThen_def ret_def dest: sighash_store_extends
      split: prod.splits sum.splits)

lemma verify_store_extends:
  assumes "verify_store P t sig k n s h = (r, h')"
  shows "extends h h'"
  using assms
  by (auto simp: verify_store_def andThen_def ret_def raise_def extends_refl
      dest: sighash_store_extends split: prod.splits sum.splits option.splits)

lemma extends_lookup:
  assumes "prefix xs ys" and "lookup xs r = Some x"
  shows "lookup ys r = Some x"
proof -
  from assms(1) obtain zs where "ys = xs @ zs"
    by (auto simp: prefix_def)
  with assms(2) show ?thesis
    by (auto simp: lookup_def nth_append split: if_splits)
qed

lemma extends_those:
  assumes "prefix xs ys" and "those (map (lookup xs) rs) = Some vs"
  shows "those (map (lookup ys) rs) = Some vs"
  using assms(2)
proof (induction rs arbitrary: vs)
  case Nil
  then show ?case by simp
next
  case (Cons r rs)
  then show ?case
    by (auto simp: extends_lookup [OF assms(1)] split: option.splits)
qed

lemma extends_read_tx:
  assumes "extends h h'" and "read_tx h t = Some tx"
  shows "read_tx h' t = Some tx"
  using assms
  by (auto simp: read_tx_def extends_def extends_lookup extends_those split: option.splits)

subsection \<open>The builder on the store computes the digest of the builder on values\<close>

lemma returns_ret: "R h \<Longrightarrow> returns (ret x) h x R"
  by (simp add: returns_def ret_def)

lemma returns_andThen:
  assumes "returns m h x R" and "\<And>h'. R h' \<Longrightarrow> returns (f x) h' y R'"
  shows "returns (andThen m f) h y R'"
  using assms by (auto simp: returns_def andThen_def)

lemma returns_forEach:
  assumes "\<And>i X h. i \<in> set js \<Longrightarrow> I X \<Longrightarrow> R X h \<Longrightarrow> returns (body i) h () (R (g i X))"
    and "\<And>i X. i \<in> set js \<Longrightarrow> I X \<Longrightarrow> I (g i X)"
    and "I X" and "R X h"
  shows "returns (forEach js body) h () (R (fold g js X))"
  using assms
proof (induction js arbitrary: X h)
  case Nil
  then show ?case by (simp add: returns_ret)
next
  case (Cons j js)
  have step: "returns (body j) h () (R (g j X))"
    using Cons.prems by simp
  have inv: "I (g j X)"
    using Cons.prems by simp
  show ?case
    unfolding forEach.simps fold_Cons comp_apply
  proof (rule returns_andThen [OF step])
    fix h'
    assume "R (g j X) h'"
    then show "returns (forEach js body) h' () (R (fold g js (g j X)))"
      using Cons.prems inv by (intro Cons.IH) simp_all
  qed
qed

lemma fold_inputs:
  "fold (\<lambda>i X. X\<lparr>inputs := u i (inputs X)\<rparr>) js X = X\<lparr>inputs := fold u js (inputs X)\<rparr>"
  by (induction js arbitrary: X) simp_all

lemma fold_outputs:
  "fold (\<lambda>i X. X\<lparr>outputs := u i (outputs X)\<rparr>) js X = X\<lparr>outputs := fold u js (outputs X)\<rparr>"
  by (induction js arbitrary: X) simp_all

lemma those_lookup:
  assumes "\<forall>r \<in> set rs. r < length xs"
  shows "those (map (lookup xs) rs) = Some (map ((!) xs) rs)"
  using assms by (induction rs) (simp_all add: lookup_def)

lemma those_lookup_Some:
  assumes "those (map (lookup xs) rs) = Some vs"
  shows "vs = map ((!) xs) rs \<and> (\<forall>r \<in> set rs. r < length xs)"
  using assms
  by (induction rs arbitrary: vs) (auto simp: lookup_def split: option.splits if_splits)

lemma rep_read_tx: "rep c S X h \<Longrightarrow> read_tx h c = Some X"
  by (auto simp: rep_def read_tx_def those_lookup)

lemma rep_scripts: "rep c S X h \<Longrightarrow> h_scripts h = S"
  by (simp add: rep_def)

lemma map_nth_upt_append:
  "map ((!) (xs @ ys)) [length xs..<length xs + length ys] = ys"
  by (intro nth_equalityI) (simp_all add: nth_append)

lemma returns_shallowCopy_store:
  assumes "read_tx h t = Some tx"
  shows "\<exists>c. returns (shallowCopy_store t) h c (rep c (h_scripts h) tx)"
proof -
  let ?h' = "snd (new_Transaction tx h)"
  have run: "shallowCopy_store t h = (Inr (length (h_txs h)), ?h')"
    using assms by (simp add: shallowCopy_store_def andThen_def get_tx_def new_Transaction_def)
  have "distinct [length (h_inputs h)..<length (h_inputs h) + length (inputs tx)]"
    by simp
  then have "rep (length (h_txs h)) (h_scripts h) tx ?h'"
    unfolding rep_def
    by (auto simp: new_Transaction_def lookup_def map_nth_upt_append tx_value_def)
  with run show ?thesis
    by (auto simp: returns_def)
qed


lemma map_nth_snoc_update:
  assumes "\<forall>r \<in> set rs. r < length xs" and "i < length rs"
  shows "map ((!) (xs @ [x])) (rs[i := length xs]) = (map ((!) xs) rs)[i := x]"
  using assms by (intro nth_equalityI) (auto simp: nth_list_update nth_append)

lemma map_nth_update_distinct:
  assumes "distinct rs" and "i < length rs"
  shows "map ((!) (xs[rs ! i := x])) rs = (map ((!) xs) rs)[i := xs[rs ! i := x] ! (rs ! i)]"
  using assms
  by (intro nth_equalityI) (auto simp: nth_list_update nth_eq_iff_index_eq)

lemma returns_replace_input:
  assumes "rep c S X h" and "i < length (inputs X)"
  shows "returns (replace_input c i s) h ()
           (rep c S (X\<lparr>inputs := (inputs X)[i := setScript (inputs X ! i) s]\<rparr>))"
proof -
  from assms(1) obtain obj rs outs where
    obj: "lookup (h_txs h) c = Some obj" and
    rs: "lookup (h_inputArrays h) (o_inputs obj) = Some rs" and
    dist: "distinct rs" and
    bound: "\<forall>r \<in> set rs. r < length (h_inputs h)" and
    outs: "lookup (h_outputArrays h) (o_outputs obj) = Some outs" and
    X: "X = tx_value obj (map ((!) (h_inputs h)) rs) outs" and
    S: "h_scripts h = S"
    by (auto simp: rep_def)
  have i: "i < length rs"
    using assms(2) X by (simp add: tx_value_def)
  then have ri: "rs ! i < length (h_inputs h)"
    using bound by simp
  have a: "o_inputs obj < length (h_inputArrays h)" and rs': "h_inputArrays h ! o_inputs obj = rs"
    using rs by (auto simp: lookup_def split: if_splits)
  let ?x = "setScript (h_inputs h ! (rs ! i)) s"
  let ?h' = "h\<lparr>h_inputs := h_inputs h @ [?x],
               h_inputArrays := (h_inputArrays h)[o_inputs obj := rs[i := length (h_inputs h)]]\<rparr>"
  have run: "replace_input c i s h = (Inr (), ?h')"
    using obj rs i ri a rs'
    by (simp add: replace_input_def andThen_def inputs_array_def deref_def ret_def
        new_Input_def set_input_slot_def lookup_def)
  have fresh: "length (h_inputs h) \<notin> set rs"
    using bound by auto
  have d': "distinct (rs[i := length (h_inputs h)])"
    using dist fresh i by (simp add: distinct_list_update)
  have b': "\<forall>r \<in> set (rs[i := length (h_inputs h)]). r < length (h_inputs h @ [?x])"
    using bound set_update_subset_insert [of rs i "length (h_inputs h)"] by fastforce
  have X': "X\<lparr>inputs := (inputs X)[i := setScript (inputs X ! i) s]\<rparr> =
      tx_value obj (map ((!) (h_inputs h @ [?x])) (rs[i := length (h_inputs h)])) outs"
    using i by (simp add: X tx_value_def map_nth_snoc_update [OF bound i])
  have "rep c S (X\<lparr>inputs := (inputs X)[i := setScript (inputs X ! i) s]\<rparr>) ?h'"
    unfolding rep_def
    using obj outs a d' b' X' S by (auto simp: lookup_def)
  with run show ?thesis
    by (auto simp: returns_def)
qed

lemma returns_blank_scripts_store:
  assumes "rep c S X h"
  shows "returns (blank_scripts_store c) h () (rep c S (X\<lparr>inputs := blank_scripts (inputs X)\<rparr>))"
proof -
  from assms obtain obj rs where
    obj: "lookup (h_txs h) c = Some obj" and
    rs: "lookup (h_inputArrays h) (o_inputs obj) = Some rs" and
    len: "length rs = length (inputs X)"
    by (auto simp: rep_def tx_value_def)
  let ?g = "\<lambda>i X. X\<lparr>inputs := (inputs X)[i := setScript (inputs X ! i) []]\<rparr>"
  have loop: "returns (forEach [0..<length rs] (\<lambda>i. replace_input c i [])) h ()
      (rep c S (fold ?g [0..<length rs] X))"
  proof (rule returns_forEach [where I = "\<lambda>Y. length (inputs Y) = length rs"
        and R = "rep c S" and g = ?g])
    show "rep c S X h" by (rule assms)
    show "length (inputs X) = length rs" using len by simp
  qed (auto intro: returns_replace_input)
  have "fold ?g [0..<length rs] X = X\<lparr>inputs := blank_scripts (inputs X)\<rparr>"
    by (simp add: fold_inputs [where u = "\<lambda>i ins. ins[i := setScript (ins ! i) []]"]
        blank_scripts_def len)
  with loop have "returns (forEach [0..<length rs] (\<lambda>i. replace_input c i [])) h ()
      (rep c S (X\<lparr>inputs := blank_scripts (inputs X)\<rparr>))"
    by simp
  then show ?thesis
    using obj rs
    by (simp add: blank_scripts_store_def andThen_def inputs_array_def deref_def ret_def
        returns_def)
qed

lemma returns_clear_one:
  assumes "rep c S X h" and "i < length (inputs X)"
  shows "returns
           (andThen (inputs_array c) (\<lambda>(a, rs).
              if i < length rs then set_sequenceNumber (rs ! i) 0 else raise TypeError))
           h ()
           (rep c S (X\<lparr>inputs := (inputs X)[i := (inputs X ! i)\<lparr>sequenceNumber := 0\<rparr>]\<rparr>))"
proof -
  from assms(1) obtain obj rs outs where
    obj: "lookup (h_txs h) c = Some obj" and
    rs: "lookup (h_inputArrays h) (o_inputs obj) = Some rs" and
    dist: "distinct rs" and
    bound: "\<forall>r \<in> set rs. r < length (h_inputs h)" and
    outs: "lookup (h_outputArrays h) (o_outputs obj) = Some outs" and
    X: "X = tx_value obj (map ((!) (h_inputs h)) rs) outs" and
    S: "h_scripts h = S"
    by (auto simp: rep_def)
  have i: "i < length rs"
    using assms(2) X by (simp add: tx_value_def)
  then have ri: "rs ! i < length (h_inputs h)"
    using bound by simp
  let ?x = "(h_inputs h ! (rs ! i))\<lparr>sequenceNumber := 0\<rparr>"
  let ?h' = "h\<lparr>h_inputs := (h_inputs h)[rs ! i := ?x]\<rparr>"
  have run: "andThen (inputs_array c) (\<lambda>(a, rs).
              if i < length rs then set_sequenceNumber (rs ! i) 0 else raise TypeError) h =
            (Inr (), ?h')"
    using obj rs i ri
    by (simp add: andThen_def inputs_array_def deref_def ret_def set_sequenceNumber_def)
  have X': "X\<lparr>inputs := (inputs X)[i := (inputs X ! i)\<lparr>sequenceNumber := 0\<rparr>]\<rparr> =
      tx_value obj (map ((!) ((h_inputs h)[rs ! i := ?x])) rs) outs"
    using i ri by (simp add: X tx_value_def map_nth_update_distinct [OF dist i])
  have "rep c S (X\<lparr>inputs := (inputs X)[i := (inputs X ! i)\<lparr>sequenceNumber := 0\<rparr>]\<rparr>) ?h'"
    unfolding rep_def
    using obj rs outs dist bound X' S by auto
  with run show ?thesis
    by (auto simp: returns_def)
qed

lemma returns_clear_sequenceNumbers_store:
  assumes "rep c S X h"
  shows "returns (clear_sequenceNumbers_store n c) h ()
           (rep c S (X\<lparr>inputs := clear_sequenceNumbers n (inputs X)\<rparr>))"
proof -
  from assms obtain obj rs where
    obj: "lookup (h_txs h) c = Some obj" and
    rs: "lookup (h_inputArrays h) (o_inputs obj) = Some rs" and
    len: "length rs = length (inputs X)"
    by (auto simp: rep_def tx_value_def)
  let ?u = "\<lambda>i ins. if i \<noteq> n then ins[i := (ins ! i)\<lparr>sequenceNumber := 0\<rparr>] else ins"
  let ?g = "\<lambda>i X. X\<lparr>inputs := ?u i (inputs X)\<rparr>"
  let ?body = "\<lambda>i. if i \<noteq> n
         then andThen (inputs_array c) (\<lambda>(a, rs).
                if i < length rs then set_sequenceNumber (rs ! i) 0 else raise TypeError)
         else ret ()"
  have body: "returns (?body i) h' () (rep c S (?g i Y))"
    if "i < length (inputs Y)" and "rep c S Y h'" for i Y h'
    using that returns_clear_one [of c S Y h' i] by (simp add: returns_ret)
  have loop: "returns (forEach [0..<length rs] ?body) h () (rep c S (fold ?g [0..<length rs] X))"
  proof (rule returns_forEach [where I = "\<lambda>Y. length (inputs Y) = length rs"
        and R = "rep c S" and g = ?g])
    show "rep c S X h" by (rule assms)
    show "length (inputs X) = length rs" using len by simp
    show "returns (?body i) h' () (rep c S (?g i Y))"
      if "i \<in> set [0..<length rs]" "length (inputs Y) = length rs" "rep c S Y h'" for i Y h'
      using that by (intro body) simp_all
  qed simp
  have "fold ?g [0..<length rs] X = X\<lparr>inputs := clear_sequenceNumbers n (inputs X)\<rparr>"
    by (simp add: fold_inputs [where u = ?u] clear_sequenceNumbers_def len)
  with loop have "returns (forEach [0..<length rs] ?body) h ()
      (rep c S (X\<lparr>inputs := clear_sequenceNumbers n (inputs X)\<rparr>))"
    by simp
  then show ?thesis
    using obj rs
    by (simp add: clear_sequenceNumbers_store_def andThen_def inputs_array_def deref_def ret_def
        returns_def)
qed


lemma lookup_Some: "lookup xs r = Some x \<longleftrightarrow> r < length xs \<and> xs ! r = x"
  by (auto simp: lookup_def)

lemma andThen_assoc: "andThen (andThen m f) g = andThen m (\<lambda>x. andThen (f x) g)"
  by (auto simp: andThen_def fun_eq_iff split: prod.splits sum.splits)

lemma returns_set_outputs:
  assumes "rep c S X h"
  shows "returns (andThen (new_outputArray []) (\<lambda>a. set_tx_outputs c a)) h ()
           (rep c S (X\<lparr>outputs := []\<rparr>))"
proof -
  from assms obtain obj rs outs where
    obj: "lookup (h_txs h) c = Some obj" and
    rs: "lookup (h_inputArrays h) (o_inputs obj) = Some rs" and
    dist: "distinct rs" and
    bound: "\<forall>r \<in> set rs. r < length (h_inputs h)" and
    X: "X = tx_value obj (map ((!) (h_inputs h)) rs) outs" and
    S: "h_scripts h = S"
    by (auto simp: rep_def)
  have c: "c < length (h_txs h)" and c': "h_txs h ! c = obj"
    using obj by (auto simp: lookup_def split: if_splits)
  let ?a = "length (h_outputArrays h)"
  let ?h' = "h\<lparr>h_outputArrays := h_outputArrays h @ [[]],
               h_txs := (h_txs h)[c := obj\<lparr>o_outputs := ?a\<rparr>]\<rparr>"
  have run: "andThen (new_outputArray []) (\<lambda>a. set_tx_outputs c a) h = (Inr (), ?h')"
    using c c' by (simp add: andThen_def new_outputArray_def set_tx_outputs_def)
  have "rep c S (X\<lparr>outputs := []\<rparr>) ?h'"
    unfolding rep_def
    using c rs dist bound S by (auto simp: lookup_Some X tx_value_def)
  with run show ?thesis
    by (auto simp: returns_def)
qed

text \<open>In the loop over the outputs the array stays the one the loop started with.\<close>

lemma returns_set_outputs_length:
  assumes "rep c S X h" and "lookup (h_txs h) c = Some obj"
  shows "returns (set_outputs_length (o_outputs obj) k) h ()
           (\<lambda>h'. rep c S (X\<lparr>outputs := take k (outputs X)\<rparr>) h' \<and>
                 lookup (h_txs h') c = Some obj)"
proof -
  from assms obtain rs outs where
    rs: "lookup (h_inputArrays h) (o_inputs obj) = Some rs" and
    dist: "distinct rs" and
    bound: "\<forall>r \<in> set rs. r < length (h_inputs h)" and
    outs: "lookup (h_outputArrays h) (o_outputs obj) = Some outs" and
    X: "X = tx_value obj (map ((!) (h_inputs h)) rs) outs" and
    S: "h_scripts h = S"
    by (auto simp: rep_def)
  have a: "o_outputs obj < length (h_outputArrays h)" "h_outputArrays h ! o_outputs obj = outs"
    using outs by (auto simp: lookup_def split: if_splits)
  show ?thesis
    unfolding returns_def rep_def
    using assms(2) rs dist bound a S
    by (auto simp: set_outputs_length_def lookup_Some X tx_value_def)
qed

lemma returns_set_output_slot:
  assumes "rep c S X h" and "lookup (h_txs h) c = Some obj"
  shows "returns (set_output_slot (o_outputs obj) i out) h ()
           (\<lambda>h'. rep c S (X\<lparr>outputs := (outputs X)[i := out]\<rparr>) h' \<and>
                 lookup (h_txs h') c = Some obj)"
proof -
  from assms obtain rs outs where
    rs: "lookup (h_inputArrays h) (o_inputs obj) = Some rs" and
    dist: "distinct rs" and
    bound: "\<forall>r \<in> set rs. r < length (h_inputs h)" and
    outs: "lookup (h_outputArrays h) (o_outputs obj) = Some outs" and
    X: "X = tx_value obj (map ((!) (h_inputs h)) rs) outs" and
    S: "h_scripts h = S"
    by (auto simp: rep_def)
  have a: "o_outputs obj < length (h_outputArrays h)" "h_outputArrays h ! o_outputs obj = outs"
    using outs by (auto simp: lookup_def split: if_splits)
  show ?thesis
    unfolding returns_def rep_def
    using assms(2) rs dist bound a S
    by (auto simp: set_output_slot_def lookup_Some X tx_value_def)
qed

lemma returns_legacy_outputs_store:
  assumes "rep c S X h"
  shows "case legacy_outputs X ty n of
           Return buf \<Rightarrow> returns (legacy_outputs_store c ty n) h (Return buf) (rep c S X)
         | Continue X' \<Rightarrow> returns (legacy_outputs_store c ty n) h (Continue ()) (rep c S X')"
proof -
  consider (none) "ty AND 31 = SIGHASH_NONE"
    | (single) "ty AND 31 \<noteq> SIGHASH_NONE" "ty AND 31 = SIGHASH_SINGLE"
    | (other) "ty AND 31 \<noteq> SIGHASH_NONE" "ty AND 31 \<noteq> SIGHASH_SINGLE"
    by blast
  then show ?thesis
  proof cases
    case none
    have "returns (andThen (andThen (new_outputArray []) (\<lambda>a. set_tx_outputs c a))
            (\<lambda>_. ret (Continue ()))) h (Continue ()) (rep c S (X\<lparr>outputs := []\<rparr>))"
      by (rule returns_andThen [OF returns_set_outputs [OF assms]]) (rule returns_ret)
    then show ?thesis
      using none
      by (simp add: legacy_outputs_def legacy_outputs_store_def andThen_assoc)
  next
    case single
    from assms obtain obj outs where
      obj: "lookup (h_txs h) c = Some obj" and
      outs: "lookup (h_outputArrays h) (o_outputs obj) = Some outs" and
      len: "outputs X = outs"
      by (auto simp: rep_def tx_value_def)
    have arr: "outputs_array c h = (Inr (o_outputs obj, outs), h)"
      using obj outs by (simp add: outputs_array_def andThen_def deref_def ret_def)
    show ?thesis
    proof (cases "n \<ge> length outs")
      case True
      then show ?thesis
        using single assms arr len
        by (simp add: legacy_outputs_def legacy_outputs_store_def andThen_def returns_def ret_def)
    next
      case False
      let ?R = "\<lambda>Y h'. rep c S Y h' \<and> lookup (h_txs h') c = Some obj"
      let ?g = "\<lambda>i Y. Y\<lparr>outputs := (outputs Y)[i := null_output]\<rparr>"
      let ?X1 = "X\<lparr>outputs := take (n + 1) (outputs X)\<rparr>"
      have trunc: "returns (set_outputs_length (o_outputs obj) (n + 1)) h () (?R ?X1)"
        by (rule returns_set_outputs_length [OF assms obj])
      have loop: "returns (forEach [0..<n] (\<lambda>i. set_output_slot (o_outputs obj) i null_output))
            h' () (?R (fold ?g [0..<n] ?X1))" if "?R ?X1 h'" for h'
        by (rule returns_forEach [where I = "\<lambda>_. True" and R = ?R and g = ?g])
          (use that in \<open>auto intro: returns_set_output_slot\<close>)
      have fold: "fold ?g [0..<n] ?X1 =
          X\<lparr>outputs := null_outputs n (take (n + 1) (outputs X))\<rparr>"
        by (simp add: fold_outputs [where u = "\<lambda>i outs. outs[i := null_output]"]
            null_outputs_def)
      have "returns
          (andThen (set_outputs_length (o_outputs obj) (n + 1)) (\<lambda>_.
           andThen (forEach [0..<n] (\<lambda>i. set_output_slot (o_outputs obj) i null_output)) (\<lambda>_.
           ret (Continue ()))))
          h (Continue ()) (rep c S (X\<lparr>outputs := null_outputs n (take (n + 1) (outputs X))\<rparr>))"
      proof (rule returns_andThen [OF trunc], rule returns_andThen [OF loop])
        fix h' h''
        assume "?R (fold ?g [0..<n] ?X1) h''"
        then have "rep c S (X\<lparr>outputs := null_outputs n (take (n + 1) (outputs X))\<rparr>) h''"
          unfolding fold by (rule conjunct1)
        then show "returns (ret (Continue ())) h'' (Continue ())
            (rep c S (X\<lparr>outputs := null_outputs n (take (n + 1) (outputs X))\<rparr>))"
          by (rule returns_ret)
      qed
      then show ?thesis
        using single False arr len
        by (simp add: legacy_outputs_def legacy_outputs_store_def andThen_def returns_def)
    qed
  next
    case other
    then show ?thesis
      using assms by (simp add: legacy_outputs_def legacy_outputs_store_def returns_ret)
  qed
qed

lemma returns_collapse_inputs:
  assumes "rep c S X h" and "n < length (inputs X)"
  shows "returns (collapse_inputs c n) h () (rep c S (X\<lparr>inputs := [inputs X ! n]\<rparr>))"
proof -
  from assms(1) obtain obj rs outs where
    obj: "lookup (h_txs h) c = Some obj" and
    rs: "lookup (h_inputArrays h) (o_inputs obj) = Some rs" and
    bound: "\<forall>r \<in> set rs. r < length (h_inputs h)" and
    outs: "lookup (h_outputArrays h) (o_outputs obj) = Some outs" and
    X: "X = tx_value obj (map ((!) (h_inputs h)) rs) outs" and
    S: "h_scripts h = S"
    by (auto simp: rep_def)
  have n: "n < length rs"
    using assms(2) X by (simp add: tx_value_def)
  have c: "c < length (h_txs h)" and c': "h_txs h ! c = obj"
    using obj by (auto simp: lookup_def split: if_splits)
  let ?a = "length (h_inputArrays h)"
  let ?h' = "h\<lparr>h_inputArrays := h_inputArrays h @ [[rs ! n]],
               h_txs := (h_txs h)[c := obj\<lparr>o_inputs := ?a\<rparr>]\<rparr>"
  have run: "collapse_inputs c n h = (Inr (), ?h')"
    using obj rs n c c'
    by (simp add: collapse_inputs_def andThen_def inputs_array_def deref_def ret_def
        new_inputArray_def set_tx_inputs_def)
  have "rep c S (X\<lparr>inputs := [inputs X ! n]\<rparr>) ?h'"
    unfolding rep_def
    using c outs bound n S by (auto simp: lookup_Some X tx_value_def)
  with run show ?thesis
    by (auto simp: returns_def)
qed


lemma andThen_returns: "m h = (Inr x, h') \<Longrightarrow> andThen m f h = f x h'"
  by (simp add: andThen_def)

lemma returnsE:
  assumes "returns m h x R"
  obtains h' where "m h = (Inr x, h')" and "R h'"
  using assms by (auto simp: returns_def)

lemma replace_input_out_of_range:
  assumes "rep c S X h" and "\<not> i < length (inputs X)"
  shows "replace_input c i s h = (Inl TypeError, h)"
  using assms
  by (auto simp: rep_def tx_value_def replace_input_def andThen_def inputs_array_def deref_def
      ret_def raise_def)

lemma rep_scripts_update: "rep c S X h \<Longrightarrow> rep c S' X (h\<lparr>h_scripts := S'\<rparr>)"
  by (auto simp: rep_def)

lemma legacy_txcopy_store_refines:
  assumes tx: "read_tx h t = Some tx" and sub: "lookup (h_scripts h) s = Some sub"
  shows "case legacy_txcopy P tx ty n sub of
           Inl e \<Rightarrow> fst (legacy_txcopy_store P t ty n s h) = Inl e
         | Inr (Return buf) \<Rightarrow> fst (legacy_txcopy_store P t ty n s h) = Inr (Return buf)
         | Inr (Continue X) \<Rightarrow>
             (\<exists>c. returns (legacy_txcopy_store P t ty n s) h (Continue c)
                    (\<lambda>h'. read_tx h' c = Some X))"
proof -
  let ?v = "removeCodeseparators P sub"
  let ?S = "h_scripts h @ [?v]"
  let ?s' = "length (h_scripts h)"
  let ?clear = "\<lambda>c. if ty AND 31 = SIGHASH_NONE \<or> ty AND 31 = SIGHASH_SINGLE
                then clear_sequenceNumbers_store n c else ret ()"
  let ?collapse = "\<lambda>c. if ty AND SIGHASH_ANYONECANPAY \<noteq> 0 then collapse_inputs c n else ret ()"
  let ?tail = "\<lambda>c r. case r of
                  Return buf \<Rightarrow> ret (Return buf)
                | Continue (_ :: unit) \<Rightarrow> andThen (?collapse c) (\<lambda>_. ret (Continue c))"
  let ?rest = "\<lambda>c. andThen (blank_scripts_store c) (\<lambda>_.
       andThen (deref h_scripts ?s') (\<lambda>v.
       andThen (replace_input c n v) (\<lambda>_.
       andThen (?clear c) (\<lambda>_.
       andThen (legacy_outputs_store c ty n) (?tail c)))))"
  from returns_shallowCopy_store [OF tx] obtain c h1 where
    copy: "shallowCopy_store t h = (Inr c, h1)" and rep1: "rep c (h_scripts h) tx h1"
    by (auto simp: returns_def)
  have s1: "h_scripts h1 = h_scripts h"
    using rep1 by (simp add: rep_def)
  let ?h3 = "h1\<lparr>h_scripts := ?S\<rparr>"
  have new: "new_Script s h1 = (Inr ?s', h1\<lparr>h_scripts := h_scripts h @ [sub]\<rparr>)"
    using sub s1 by (simp add: new_Script_def andThen_def deref_def)
  have strip: "removeCodeseparators_store P ?s' (h1\<lparr>h_scripts := h_scripts h @ [sub]\<rparr>) =
      (Inr (), ?h3)"
    by (simp add: removeCodeseparators_store_def)
  have start: "legacy_txcopy_store P t ty n s h = ?rest c ?h3"
    unfolding legacy_txcopy_store_def
    by (simp only: andThen_returns [where m = "shallowCopy_store t" and h = h, OF copy]
        andThen_returns [where m = "new_Script s" and h = h1, OF new]
        andThen_returns [where m = "removeCodeseparators_store P ?s'"
          and h = "h1\<lparr>h_scripts := h_scripts h @ [sub]\<rparr>", OF strip])
  have rep3: "rep c ?S tx ?h3"
    using rep1 by (rule rep_scripts_update)
  let ?tx1 = "tx\<lparr>inputs := blank_scripts (inputs tx)\<rparr>"
  from returns_blank_scripts_store [OF rep3] obtain h4 where
    blank: "blank_scripts_store c ?h3 = (Inr (), h4)" and rep4: "rep c ?S ?tx1 h4"
    by (rule returnsE)
  have read4: "deref h_scripts ?s' h4 = (Inr ?v, h4)"
    using rep4 by (simp add: rep_def deref_def lookup_def)
  have len1: "length (inputs ?tx1) = length (inputs tx)"
    by (simp add: blank_scripts_eq)
  show ?thesis
  proof (cases "n < length (inputs tx)")
    case False
    have "replace_input c n ?v h4 = (Inl TypeError, h4)"
      using False len1 by (intro replace_input_out_of_range [OF rep4]) simp
    then have "fst (legacy_txcopy_store P t ty n s h) = Inl TypeError"
      using blank read4 by (simp add: start andThen_def)
    moreover have "legacy_txcopy P tx ty n sub = Inl TypeError"
      using False by (simp add: legacy_txcopy_def shallowCopy_def Let_def blank_scripts_eq)
    ultimately show ?thesis by simp
  next
    case True
    let ?tx2 = "?tx1\<lparr>inputs := (inputs ?tx1)[n := setScript (inputs ?tx1 ! n) ?v]\<rparr>"
    let ?tx3 = "if ty AND 31 = SIGHASH_NONE \<or> ty AND 31 = SIGHASH_SINGLE
                then ?tx2\<lparr>inputs := clear_sequenceNumbers n (inputs ?tx2)\<rparr> else ?tx2"
    have n1: "n < length (inputs ?tx1)"
      using True len1 by simp
    from returns_replace_input [OF rep4 n1, of ?v] obtain h5 where
      repl: "replace_input c n ?v h4 = (Inr (), h5)" and rep5: "rep c ?S ?tx2 h5"
      by (rule returnsE)
    have "returns (?clear c) h5 () (rep c ?S ?tx3)"
    proof (cases "ty AND 31 = SIGHASH_NONE \<or> ty AND 31 = SIGHASH_SINGLE")
      case True
      then show ?thesis
        using returns_clear_sequenceNumbers_store [OF rep5, of n] by simp
    next
      case False
      then show ?thesis
        using rep5 by (simp add: returns_ret)
    qed
    then obtain h6 where
      clear: "?clear c h5 = (Inr (), h6)" and rep6: "rep c ?S ?tx3 h6"
      by (rule returnsE)
    have pure: "legacy_txcopy P tx ty n sub =
        (case legacy_outputs ?tx3 ty n of
           Return buf \<Rightarrow> Inr (Return buf)
         | Continue txcopy \<Rightarrow>
             Inr (Continue
               (if ty AND SIGHASH_ANYONECANPAY \<noteq> 0
                then txcopy\<lparr>inputs := [inputs txcopy ! n]\<rparr>
                else txcopy)))"
      using n1 by (simp add: legacy_txcopy_def shallowCopy_def Let_def)
    have run: "legacy_txcopy_store P t ty n s h =
        andThen (legacy_outputs_store c ty n) (?tail c) h6"
      using blank read4 repl clear by (simp add: start andThen_def)
    show ?thesis
    proof (cases "legacy_outputs ?tx3 ty n")
      case (Return buf)
      with returns_legacy_outputs_store [OF rep6, of ty n] obtain h7 where
        "legacy_outputs_store c ty n h6 = (Inr (Return buf), h7)"
        by (auto simp: returns_def)
      then show ?thesis
        using Return by (simp add: pure run andThen_def ret_def)
    next
      case (Continue X')
      with returns_legacy_outputs_store [OF rep6, of ty n] obtain h7 where
        outs: "legacy_outputs_store c ty n h6 = (Inr (Continue ()), h7)" and
        rep7: "rep c ?S X' h7"
        by (auto simp: returns_def)
      have n7: "n < length (inputs X')"
        using Continue True
        by (auto simp: legacy_outputs_def blank_scripts_eq clear_sequenceNumbers_eq
            split: if_splits)
      let ?X = "if ty AND SIGHASH_ANYONECANPAY \<noteq> 0 then X'\<lparr>inputs := [inputs X' ! n]\<rparr> else X'"
      have "returns (?collapse c) h7 () (rep c ?S ?X)"
      proof (cases "ty AND SIGHASH_ANYONECANPAY \<noteq> 0")
        case True
        then show ?thesis
          using returns_collapse_inputs [OF rep7 n7] by simp
      next
        case False
        then show ?thesis
          using rep7 by (simp add: returns_ret)
      qed
      then obtain h8 where
        coll: "?collapse c h7 = (Inr (), h8)" and rep8: "rep c ?S ?X h8"
        by (rule returnsE)
      have "legacy_txcopy_store P t ty n s h = (Inr (Continue c), h8)"
        using outs coll by (simp add: run andThen_def ret_def)
      moreover have "read_tx h8 c = Some ?X"
        using rep8 by (rule rep_read_tx)
      ultimately have "returns (legacy_txcopy_store P t ty n s) h (Continue c)
          (\<lambda>h'. read_tx h' c = Some ?X)"
        by (simp add: returns_def)
      then show ?thesis
        using Continue by (auto simp: pure)
    qed
  qed
qed

lemma sighash_store_refines:
  assumes tx: "read_tx h t = Some tx" and sub: "lookup (h_scripts h) s = Some sub"
  shows "fst (sighash_store P t ty n s h) = sighash P tx ty n sub"
proof -
  from tx obtain obj where obj: "lookup (h_txs h) t = Some obj" and v: "o_version obj = version tx"
    by (auto simp: read_tx_def tx_value_def split: option.splits)
  show ?thesis
  proof (cases "version tx \<ge> 4")
    case True
    then show ?thesis
      using obj v tx sub
      by (simp add: sighash_store_def sighash_def andThen_def deref_def get_tx_def)
  next
    case False
    let ?fin = "\<lambda>r. case r of
                Return buf \<Rightarrow> ret buf
              | Continue txcopy \<Rightarrow>
                  andThen (get_tx txcopy) (\<lambda>tx.
                    ret (readReverse (sha256sha256 P
                      (toBuffer (writeInt32LE (writeBuf [] (tx_toBuffer P tx)) ty)))))"
    have run: "sighash_store P t ty n s h = andThen (legacy_txcopy_store P t ty n s) ?fin h"
      using obj v False by (simp add: sighash_store_def andThen_def deref_def Let_def)
    show ?thesis
    proof (cases "legacy_txcopy P tx ty n sub")
      case (Inl e)
      with legacy_txcopy_store_refines [OF tx sub, of P ty n]
      have "fst (legacy_txcopy_store P t ty n s h) = Inl e"
        by simp
      then show ?thesis
        using Inl False
        by (auto simp: run sighash_def andThen_def split: prod.splits sum.splits)
    next
      case (Inr E)
      show ?thesis
      proof (cases E)
        case (Return buf)
        with Inr legacy_txcopy_store_refines [OF tx sub, of P ty n]
        have "fst (legacy_txcopy_store P t ty n s h) = Inr (Return buf)"
          by simp
        then show ?thesis
          using Inr Return False
          by (auto simp: run sighash_def andThen_def ret_def split: prod.splits sum.splits)
      next
        case (Continue X)
        with Inr legacy_txcopy_store_refines [OF tx sub, of P ty n]
        obtain c h' where "legacy_txcopy_store P t ty n s h = (Inr (Continue c), h')"
          and "read_tx h' c = Some X"
          by (auto simp: returns_def)
        then show ?thesis
          using Inr Continue False
          by (simp add: run sighash_def andThen_def ret_def get_tx_def Let_def)
      qed
    qed
  qed
qed

lemma sign_store_refines:
  assumes "read_tx h t = Some tx" and "lookup (h_scripts h) s = Some sub"
  shows "fst (sign_store P t k ty n s h) = sign P tx k ty n sub"
  using sighash_store_refines [OF assms, of P ty n]
  by (auto simp: sign_store_def sign_def andThen_def ret_def split: prod.splits sum.splits)

lemma verify_store_refines:
  assumes "read_tx h t = Some tx" and "lookup (h_scripts h) s = Some sub"
  shows "fst (verify_store P (Some t) sig k n s h) = verify P (Some tx) sig k n sub"
proof (cases sig)
  case None
  then show ?thesis
    by (simp add: verify_store_def verify_def raise_def)
next
  case sg: (Some sg)
  show ?thesis
  proof (cases "nhashtype sg")
    case None
    then show ?thesis
      using sg by (simp add: verify_store_def verify_def raise_def)
  next
    case (Some ty)
    then show ?thesis
      using sg sighash_store_refines [OF assms, of P ty n]
      by (auto simp: verify_store_def verify_def andThen_def ret_def
          split: prod.splits sum.splits)
  qed
qed

text \<open>
  Claim C9. No call of \<open>sighash\<close>, \<open>sign\<close> or \<open>verify\<close> changes an object of the
  caller: the store after the call extends the store before it, so every transaction
  object, array, input object and script object that existed is unchanged, and the
  builder's substitutions, zeroing, truncation and collapse went to the copy and to the
  copy of the subscript. In particular the caller's transaction and subscript read as
  before, and the call returns what \<open>sighash\<close>, \<open>sign\<close> and \<open>verify\<close> return on
  these values.
\<close>

theorem caller_objects_unchanged:
  "extends h (snd (sighash_store P t ty n s h)) \<and>
   extends h (snd (sign_store P t k ty n s h)) \<and>
   extends h (snd (verify_store P t' sig pub n s h)) \<and>
   (read_tx h t = Some tx \<and> lookup (h_scripts h) s = Some sub \<longrightarrow>
      read_tx (snd (sighash_store P t ty n s h)) t = Some tx \<and>
      lookup (h_scripts (snd (sighash_store P t ty n s h))) s = Some sub \<and>
      fst (sighash_store P t ty n s h) = sighash P tx ty n sub \<and>
      read_tx (snd (sign_store P t k ty n s h)) t = Some tx \<and>
      lookup (h_scripts (snd (sign_store P t k ty n s h))) s = Some sub \<and>
      fst (sign_store P t k ty n s h) = sign P tx k ty n sub \<and>
      read_tx (snd (verify_store P (Some t) sig pub n s h)) t = Some tx \<and>
      lookup (h_scripts (snd (verify_store P (Some t) sig pub n s h))) s = Some sub \<and>
      fst (verify_store P (Some t) sig pub n s h) = verify P (Some tx) sig pub n sub)"
proof -
  have e: "extends h (snd (sighash_store P t ty n s h))"
    "extends h (snd (sign_store P t k ty n s h))"
    "extends h (snd (verify_store P t' sig pub n s h))" for t'
    by (auto intro: sighash_store_extends sign_store_extends verify_store_extends
        simp: prod_eq_iff)
  have keep: "read_tx h' t = Some tx \<and> lookup (h_scripts h') s = Some sub"
    if "extends h h'" "read_tx h t = Some tx" "lookup (h_scripts h) s = Some sub" for h'
    using that by (auto simp: extends_read_tx extends_def intro: extends_lookup)
  show ?thesis
    using e keep [OF e(1)] keep [OF e(2)] keep [OF e(3) [of "Some t"]]
      sighash_store_refines [of h t tx s sub P ty n]
      sign_store_refines [of h t tx s sub P k ty n]
      verify_store_refines [of h t tx s sub P sig pub n]
    by blast
qed

theorem caller_objects_unchanged_witness:
  "read_tx sample_store 0 = Some sample_tx3 \<and>
   lookup (h_scripts sample_store) 0 = Some [0x51, 0xab, 0x52] \<and>
   extends sample_store (snd (sighash_store sample_prims 0 3 1 0 sample_store)) \<and>
   read_tx (snd (sighash_store sample_prims 0 3 1 0 sample_store)) 0 = Some sample_tx3 \<and>
   lookup (h_scripts (snd (sighash_store sample_prims 0 3 1 0 sample_store))) 0 =
     Some [0x51, 0xab, 0x52] \<and>
   fst (sighash_store sample_prims 0 3 1 0 sample_store) =
     sighash sample_prims sample_tx3 3 1 [0x51, 0xab, 0x52]"
proof -
  have a: "read_tx sample_store 0 = Some sample_tx3"
    by (simp add: read_tx_def sample_store_def sample_tx3_def lookup_def tx_value_def)
  have b: "lookup (h_scripts sample_store) 0 = Some [0x51, 0xab, 0x52]"
    by (simp add: sample_store_def lookup_def)
  show ?thesis
    using caller_objects_unchanged [of sample_store sample_prims 0 3 1 0 _ _ _ _
        sample_tx3 "[0x51, 0xab, 0x52]"] a b
    by blast
qed

end
